theory Spec2Isabelle
  imports Complex_Main "HOL-Library.Word" "HOL-Library.AList"
begin

unbundle bit_operations_syntax

section \<open>The session registry of \<open>src/server.ts\<close>\<close>

text \<open>
  \<open>createServer\<close> keeps its sessions in two JavaScript objects keyed by the request URL:
  \<open>connectionPools\<close> (URL to the array of sockets of the session) and
  \<open>connectionPoolOpen\<close> (URL to the \<open>Date.now()\<close> of the session's creation), and counts
  the sessions in \<open>pipeCount\<close>.  An object is modelled as an association list in insertion
  order: \<open>obj[k]\<close> is \<open>map_of obj k\<close> (\<open>None\<close> for \<open>undefined\<close>), \<open>obj[k] = v\<close> is
  \<open>AList.update k v obj\<close>, \<open>delete obj[k]\<close> is \<open>AList.delete k obj\<close>, and \<open>for (x in obj)\<close>
  visits \<open>map fst obj\<close>.  A socket is an object compared by identity (\<open>!==\<close>, \<open>indexOf\<close>);
  it is modelled by a handle.  The optional Prometheus gauges are not modelled.
\<close>

type_synonym socket = nat

datatype error = TypeError

record registry =
  connectionPools :: "(string \<times> socket list) list"
  connectionPoolOpen :: "(string \<times> int) list"
  pipeCount :: int

text \<open>The state right after \<open>createServer\<close> has initialised its variables (lines 48, 49, 79).\<close>

definition createServer :: registry where
  "createServer = \<lparr>connectionPools = [], connectionPoolOpen = [], pipeCount = 0\<rparr>"

subsection \<open>Array primitives\<close>

text \<open>\<open>Array.prototype.indexOf\<close>: the first index holding the element, \<open>-1\<close> when there is none.\<close>

fun indexOf :: "'a list \<Rightarrow> 'a \<Rightarrow> int" where
  "indexOf [] x = -1"
| "indexOf (y # ys) x =
     (if y = x then 0 else (let i = indexOf ys x in if i < 0 then -1 else i + 1))"

text \<open>
  \<open>Array.prototype.splice(start, deleteCount)\<close>, the array it leaves behind: a negative
  \<open>start\<close> counts from the end (\<open>max (len + start) 0\<close>), a \<open>start\<close> beyond the end is the end.
\<close>

definition array_splice :: "int \<Rightarrow> nat \<Rightarrow> 'a list \<Rightarrow> 'a list" where
  "array_splice start deleteCount xs =
     (let len = int (length xs);
          s = nat (if start < 0 then max (len + start) 0 else min start len)
      in take s xs @ drop (s + deleteCount) xs)"

subsection \<open>The WebSocket handlers\<close>

text \<open>
  The \<open>connection\<close> handler (lines 135 to 145).  \<open>now\<close> is the value of \<open>Date.now()\<close>.
  After the guard of line 138 the pool of \<open>url\<close> is defined, so the \<open>None\<close> branch of the
  second lookup is never taken.
\<close>

definition on_connection :: "int \<Rightarrow> string \<Rightarrow> socket \<Rightarrow> registry \<Rightarrow> registry" where
  "on_connection now url socket st =
     (let st1 = (if map_of (connectionPools st) url = None
                 then st\<lparr>connectionPools := AList.update url [] (connectionPools st),
                         connectionPoolOpen := AList.update url now (connectionPoolOpen st),
                         pipeCount := pipeCount st + 1\<rparr>
                 else st);
          pool = (case map_of (connectionPools st1) url of Some p \<Rightarrow> p | None \<Rightarrow> [])
      in st1\<lparr>connectionPools := AList.update url (pool @ [socket]) (connectionPools st1)\<rparr>)"

text \<open>
  The \<open>message\<close> handler (lines 147 to 149) of the socket \<open>socket\<close> connected under \<open>url\<close>:
  the list of \<open>send\<close> calls it makes, in order.  Iterating \<open>undefined\<close> throws a TypeError.
\<close>

definition on_message :: "string \<Rightarrow> socket \<Rightarrow> 'm \<Rightarrow> registry \<Rightarrow> error + (socket \<times> 'm) list" where
  "on_message url socket message st =
     (case map_of (connectionPools st) url of
        None \<Rightarrow> Inl TypeError
      | Some pool \<Rightarrow> Inr [(s, message). s \<leftarrow> pool, s \<noteq> socket])"

text \<open>
  The \<open>close\<close> handler (lines 151 to 161) of the socket \<open>socket\<close> connected under \<open>url\<close> with
  the flag \<open>isServer\<close> captured at connection time: the new registry and the sockets on which
  it calls \<open>close()\<close>, in order.  Reading \<open>splice\<close> of \<open>undefined\<close> throws a TypeError before
  anything is changed.
\<close>

definition on_close :: "string \<Rightarrow> bool \<Rightarrow> socket \<Rightarrow> registry \<Rightarrow> error + (registry \<times> socket list)" where
  "on_close url isServer socket st =
     (case map_of (connectionPools st) url of
        None \<Rightarrow> Inl TypeError
      | Some pool \<Rightarrow>
          (let pool' = array_splice (indexOf pool socket) 1 pool;
               closing = (if isServer then pool' else []);
               st' = st\<lparr>connectionPools := AList.update url pool' (connectionPools st)\<rparr>
           in Inr (if length pool' = 0
                   then st'\<lparr>connectionPools := AList.delete url (connectionPools st'),
                            connectionPoolOpen := AList.delete url (connectionPoolOpen st'),
                            pipeCount := pipeCount st' - 1\<rparr>
                   else st',
                   closing)))"

text \<open>
  The flag of line 137, \<open>request.headers["X-Rawterm-Is-Server"] === "Yes"\<close>, over the
  headers object of the request.
\<close>

definition isServer_of :: "(string \<rightharpoonup> string) \<Rightarrow> bool" where
  "isServer_of headers = (headers ''X-Rawterm-Is-Server'' = Some ''Yes'')"

subsection \<open>Reading the registry\<close>

definition allSessionIds :: "registry \<Rightarrow> string list" where
  "allSessionIds st = map fst (connectionPools st)"

definition membersOf :: "registry \<Rightarrow> string \<Rightarrow> socket list" where
  "membersOf st url = (case map_of (connectionPools st) url of None \<Rightarrow> [] | Some pool \<Rightarrow> pool)"

definition memberCount :: "registry \<Rightarrow> string \<Rightarrow> nat" where
  "memberCount st url = length (membersOf st url)"

text \<open>\<open>getConnectionCount\<close> (line 275) and \<open>getPipeCount\<close> (line 276).\<close>

definition getConnectionCount :: "registry \<Rightarrow> nat" where
  "getConnectionCount st = fold (\<lambda>pool sum. sum + length pool) (map snd (connectionPools st)) 0"

definition getPipeCount :: "registry \<Rightarrow> int" where
  "getPipeCount st = pipeCount st"

subsection \<open>Event sequences\<close>

text \<open>
  The transport delivers events one at a time; each runs its handler to completion.  An
  exception thrown by a handler ends the run.  The outputs are the \<open>send\<close> and \<open>close()\<close>
  calls made on sockets.
\<close>

datatype 'm event =
    Connection int string socket
  | Message string socket 'm
  | Close string bool socket

datatype 'm action = Send socket 'm | CloseSocket socket

fun step :: "'m event \<Rightarrow> registry \<Rightarrow> error + (registry \<times> 'm action list)" where
  "step (Connection now url socket) st = Inr (on_connection now url socket st, [])"
| "step (Message url socket message) st =
     (case on_message url socket message st of
        Inl e \<Rightarrow> Inl e
      | Inr sends \<Rightarrow> Inr (st, map (\<lambda>(s, m). Send s m) sends))"
| "step (Close url isServer socket) st =
     (case on_close url isServer socket st of
        Inl e \<Rightarrow> Inl e
      | Inr (st', closing) \<Rightarrow> Inr (st', map CloseSocket closing))"

fun run :: "'m event list \<Rightarrow> registry \<Rightarrow> error + (registry \<times> 'm action list)" where
  "run [] st = Inr (st, [])"
| "run (e # es) st =
     (case step e st of
        Inl err \<Rightarrow> Inl err
      | Inr (st', out) \<Rightarrow>
          (case run es st' of
             Inl err \<Rightarrow> Inl err
           | Inr (st'', out') \<Rightarrow> Inr (st'', out @ out')))"

text \<open>The joins and leaves of a session in an event sequence.\<close>

fun is_join :: "string \<Rightarrow> 'm event \<Rightarrow> bool" where
  "is_join url (Connection now u s) = (u = url)"
| "is_join url _ = False"

fun is_leave :: "string \<Rightarrow> 'm event \<Rightarrow> bool" where
  "is_leave url (Close u f s) = (u = url)"
| "is_leave url _ = False"

definition joins :: "string \<Rightarrow> 'm event list \<Rightarrow> nat" where
  "joins url es = length (filter (is_join url) es)"

definition leaves :: "string \<Rightarrow> 'm event list \<Rightarrow> nat" where
  "leaves url es = length (filter (is_leave url) es)"

text \<open>
  The sequences the transport can deliver.  A socket object reaches the \<open>connection\<close>
  handler once; its \<open>message\<close> and \<open>close\<close> handlers are closures created by that call
  (lines 147 and 151), so they run only after it and with the \<open>url\<close> it saw; and \<open>ws\<close>
  emits \<open>close\<close> once per socket, after which it emits nothing for it.  The sockets that
  are connected, each with its URL, and the sockets seen so far are tracked along the
  sequence.
\<close>

fun admit :: "'m event \<Rightarrow> (socket \<times> string) list \<times> socket list
    \<Rightarrow> ((socket \<times> string) list \<times> socket list) option" where
  "admit (Connection now url s) (conn, seen) =
     (if s \<in> set seen then None else Some (conn @ [(s, url)], s # seen))"
| "admit (Message url s m) (conn, seen) =
     (if (s, url) \<in> set conn then Some (conn, seen) else None)"
| "admit (Close url f s) (conn, seen) =
     (if (s, url) \<in> set conn then Some (remove1 (s, url) conn, seen) else None)"

fun admit_all :: "'m event list \<Rightarrow> (socket \<times> string) list \<times> socket list
    \<Rightarrow> ((socket \<times> string) list \<times> socket list) option" where
  "admit_all [] t = Some t"
| "admit_all (e # es) t = (case admit e t of None \<Rightarrow> None | Some t' \<Rightarrow> admit_all es t')"

definition deliverable :: "'m event list \<Rightarrow> bool" where
  "deliverable es = (admit_all es ([], []) \<noteq> None)"

text \<open>The sockets connected under \<open>url\<close>, in the order of their connection.\<close>

definition connected :: "string \<Rightarrow> (socket \<times> string) list \<Rightarrow> socket list" where
  "connected url conn = map fst (filter (\<lambda>p. snd p = url) conn)"

subsection \<open>The reaper\<close>

text \<open>
  The callback of \<open>cleanupInterval\<close> (lines 165 to 170): the sockets on which it calls
  \<open>close()\<close>, in order.  \<open>now - undefined\<close> is \<open>NaN\<close>, and \<open>NaN > 60000\<close> is false.
\<close>

definition cleanupInterval :: "int \<Rightarrow> registry \<Rightarrow> socket list" where
  "cleanupInterval now st =
     concat (map (\<lambda>x.
        case map_of (connectionPools st) x of
          None \<Rightarrow> []
        | Some pool \<Rightarrow>
            if length pool = 1 \<and>
               (case map_of (connectionPoolOpen st) x of None \<Rightarrow> False | Some t \<Rightarrow> now - t > 60000)
            then [pool ! 0] else [])
       (map fst (connectionPools st)))"

subsection \<open>Well-formed registries\<close>

text \<open>No session of the registry has an empty pool.\<close>

definition pools_nonempty :: "registry \<Rightarrow> bool" where
  "pools_nonempty st = (\<forall>x \<in> set (allSessionIds st). membersOf st x \<noteq> [])"

section \<open>The broadcast framer and the identifier generator\<close>

text \<open>
  A \<open>Buffer\<close> is a list of bytes.  A JavaScript string is a sequence of UTF-16 code
  units; the operator's message is modelled as such.  The strings the code builds itself
  (the base64 text, the \<open>binary\<close> rendering of the buffer, the hexadecimal fields, the
  packets) only hold code units below 256 and are modelled as \<open>string\<close>, whose
  characters are exactly these.
\<close>

type_synonym byte = "8 word"

type_synonym jsstring = "16 word list"

text \<open>A string literal of the source, as a JavaScript string.\<close>

definition literal :: "string \<Rightarrow> jsstring" where
  "literal s = map of_char s"

subsection \<open>CRC-32 (lines 17 to 35)\<close>

text \<open>
  The numbers of \<open>makeCRCTable\<close> and \<open>crc32\<close> only pass through the 32-bit operators
  \<open>&\<close>, \<open>^\<close> and \<open>>>>\<close>, so they are modelled by their 32-bit patterns; the final
  \<open>>>> 0\<close> reads the pattern as an unsigned number.
\<close>

definition crc_shift :: "32 word \<Rightarrow> 32 word" where
  "crc_shift c = (if c AND 1 \<noteq> 0 then 0xEDB88320 XOR drop_bit 1 c else drop_bit 1 c)"

definition makeCRCTable :: "32 word list" where
  "makeCRCTable = map (\<lambda>n. (crc_shift ^^ 8) (word_of_nat n)) [0..<256]"

definition crc32 :: "string \<Rightarrow> nat" where
  "crc32 str =
     unat (fold (\<lambda>ch crc. drop_bit 8 crc XOR makeCRCTable ! unat ((crc XOR of_char ch) AND 0xFF))
             str (0 XOR (- 1))
           XOR (- 1))"

subsection \<open>Number and string primitives\<close>

text \<open>\<open>Number.prototype.toString(16)\<close> on a non-negative integer.\<close>

definition hex_digit :: "nat \<Rightarrow> char" where
  "hex_digit d = ''0123456789abcdef'' ! d"

fun toString16 :: "nat \<Rightarrow> string" where
  "toString16 n = (if n < 16 then [hex_digit n] else toString16 (n div 16) @ [hex_digit (n mod 16)])"

declare toString16.simps [simp del]

text \<open>\<open>s.slice(-k)\<close>: the last \<open>k\<close> characters of \<open>s\<close>, all of \<open>s\<close> when it is shorter.\<close>

definition slice_last :: "nat \<Rightarrow> string \<Rightarrow> string" where
  "slice_last k s = drop (length s - k) s"

text \<open>\<open>s.replace(/c/g, d)\<close> for a single character \<open>c\<close>.\<close>

definition replace_all :: "char \<Rightarrow> char \<Rightarrow> string \<Rightarrow> string" where
  "replace_all c d s = map (\<lambda>x. if x = c then d else x) s"

subsection \<open>Buffer primitives\<close>

definition alloc :: "nat \<Rightarrow> byte list" where
  "alloc n = replicate n 0"

definition fill :: "byte \<Rightarrow> byte list \<Rightarrow> byte list" where
  "fill v buf = map (\<lambda>_. v) buf"

text \<open>
  The UTF-8 encoding of a JavaScript string, character by character: a surrogate pair is one
  character of four bytes, a lone surrogate is written as U+FFFD.
\<close>

fun utf8_chars :: "jsstring \<Rightarrow> byte list list" where
  "utf8_chars [] = []"
| "utf8_chars (c # cs) =
     (if c < 0x80 then [ucast c] # utf8_chars cs
      else if c < 0x800 then
        [0xC0 OR ucast (drop_bit 6 c), 0x80 OR ucast (c AND 0x3F)] # utf8_chars cs
      else if 0xD800 \<le> c \<and> c < 0xDC00 then
        (case cs of
           [] \<Rightarrow> [[0xEF, 0xBF, 0xBD]]
         | d # ds \<Rightarrow>
             if 0xDC00 \<le> d \<and> d < 0xE000 then
               (let cp = (0x10000 + push_bit 10 (ucast (c AND 0x3FF)) + ucast (d AND 0x3FF) :: 32 word)
                in [0xF0 OR ucast (drop_bit 18 cp), 0x80 OR ucast (drop_bit 12 cp AND 0x3F),
                    0x80 OR ucast (drop_bit 6 cp AND 0x3F), 0x80 OR ucast (cp AND 0x3F)]
                   # utf8_chars ds)
             else [0xEF, 0xBF, 0xBD] # utf8_chars cs)
      else if 0xDC00 \<le> c \<and> c < 0xE000 then [0xEF, 0xBF, 0xBD] # utf8_chars cs
      else [0xE0 OR ucast (drop_bit 12 c), 0x80 OR ucast (drop_bit 6 c AND 0x3F),
            0x80 OR ucast (c AND 0x3F)] # utf8_chars cs)"

text \<open>\<open>Buffer.byteLength(str)\<close>, the length of the UTF-8 encoding.\<close>

definition byteLength :: "jsstring \<Rightarrow> nat" where
  "byteLength str = length (concat (utf8_chars str))"

text \<open>The longest run of leading characters whose encodings fit into \<open>avail\<close> bytes.\<close>

fun fitting :: "nat \<Rightarrow> byte list list \<Rightarrow> byte list list" where
  "fitting avail [] = []"
| "fitting avail (ch # chs) =
     (if length ch \<le> avail then ch # fitting (avail - length ch) chs else [])"

text \<open>
  \<open>buf.write(str, offset)\<close> with the default encoding \<open>utf8\<close>: the encoded characters
  that fit between \<open>offset\<close> and the end of the buffer are written, a character that would
  be cut is not.  Node throws a RangeError when \<open>offset\<close> lies beyond the buffer;
  \<open>sendMessage\<close> writes at 6 and 26 into a buffer of at least 27 bytes.
\<close>

definition buf_write :: "jsstring \<Rightarrow> nat \<Rightarrow> byte list \<Rightarrow> byte list" where
  "buf_write str offset buf =
     (let bytes = concat (fitting (length buf - offset) (utf8_chars str))
      in take offset buf @ bytes @ drop (offset + length bytes) buf)"

text \<open>\<open>buf.toString("base64")\<close>: the standard alphabet, padded with \<open>=\<close>.\<close>

definition base64_char :: "nat \<Rightarrow> char" where
  "base64_char i = ''ABCDEFGHIJKLMNOPQRSTUVWXYZabcdefghijklmnopqrstuvwxyz0123456789+/'' ! i"

fun toString_base64 :: "byte list \<Rightarrow> string" where
  "toString_base64 (a # b # c # rest) =
     (let n = unat a * 65536 + unat b * 256 + unat c
      in [base64_char (n div 262144), base64_char (n div 4096 mod 64),
          base64_char (n div 64 mod 64), base64_char (n mod 64)] @ toString_base64 rest)"
| "toString_base64 [a, b] =
     (let n = unat a * 65536 + unat b * 256
      in [base64_char (n div 262144), base64_char (n div 4096 mod 64),
          base64_char (n div 64 mod 64), CHR ''=''])"
| "toString_base64 [a] =
     (let n = unat a * 65536
      in [base64_char (n div 262144), base64_char (n div 4096 mod 64), CHR ''='', CHR ''=''])"
| "toString_base64 [] = []"

text \<open>\<open>buf.toString("binary")\<close>: one character per byte.\<close>

definition toString_binary :: "byte list \<Rightarrow> string" where
  "toString_binary buf = map (\<lambda>b. char_of (unat b)) buf"

subsection \<open>\<open>sendMessage\<close> (lines 223 to 239)\<close>

text \<open>The buffer of lines 224 to 229.\<close>

definition sendMessage_buf :: "jsstring \<Rightarrow> byte list" where
  "sendMessage_buf message =
     (let buf = alloc (27 + length message);
          buf = fill 0 buf;
          buf = buf[0 := 5];
          buf = buf[2 := 0x40];
          buf = buf_write (literal ''Message from server'') 6 buf;
          buf = buf_write message 26 buf
      in buf)"

text \<open>The two packets of lines 230 to 232.\<close>

definition sendMessage_packet :: "jsstring \<Rightarrow> string" where
  "sendMessage_packet message =
     (let b64 = toString_base64 (sendMessage_buf message)
      in ''!CPC'' @ slice_last 4 (''000'' @ toString16 (length b64)) @ b64
         @ slice_last 8 (''0000000'' @ toString16 (crc32 b64)) @ [CHR 0x0A])"

definition sendMessage_bpacket :: "jsstring \<Rightarrow> string" where
  "sendMessage_bpacket message =
     (let buf = sendMessage_buf message; b64 = toString_base64 buf
      in ''!CPC'' @ slice_last 4 (''000'' @ toString16 (length b64)) @ b64
         @ slice_last 8 (''0000000'' @ toString16 (crc32 (toString_binary buf))) @ [CHR 0x0A])"

text \<open>The \<open>send\<close> calls of lines 233 to 238, in order.\<close>

definition sendMessage :: "jsstring \<Rightarrow> registry \<Rightarrow> (socket \<times> string) list" where
  "sendMessage message st =
     concat (map (\<lambda>x.
        case map_of (connectionPools st) x of
          None \<Rightarrow> []
        | Some pool \<Rightarrow>
            concat (map (\<lambda>socket. [(socket, sendMessage_packet message),
                                     (socket, sendMessage_bpacket message)]) pool))
       (map fst (connectionPools st)))"

subsection \<open>\<open>makeID\<close> (lines 87 to 91)\<close>

text \<open>
  \<open>Math.random()\<close> returns a double, and \<open>Math.random() * 255\<close> is the IEEE 754
  product: the exact product rounded to 53 significant bits, to the nearest double, ties to
  the even mantissa.  A finite double that is not negative is a mantissa below \<open>2 ^ 53\<close>
  with a binary exponent, standing for \<open>mantissa * 2 ^ exponent\<close>.
\<close>

record double =
  mantissa :: nat
  exponent :: int

definition is_double :: "double \<Rightarrow> bool" where
  "is_double d = (mantissa d < 2 ^ 53 \<and> - 1074 \<le> exponent d \<and> exponent d \<le> 971)"

definition double_value :: "double \<Rightarrow> real" where
  "double_value d =
     (if 0 \<le> exponent d then real (mantissa d) * 2 ^ nat (exponent d)
      else real (mantissa d) / 2 ^ nat (- exponent d))"

text \<open>The number of binary digits of a natural number.\<close>

fun bit_length :: "nat \<Rightarrow> nat" where
  "bit_length n = (if n = 0 then 0 else Suc (bit_length (n div 2)))"

declare bit_length.simps [simp del]

text \<open>
  The number \<open>m * 2 ^ e\<close> rounded to 53 significant bits: the \<open>k\<close> digits of \<open>m\<close> beyond
  the 53rd are dropped, and the mantissa goes up by one when they are more than half a unit
  of the last kept digit, or exactly half and the mantissa is odd.  (A mantissa that comes
  out as \<open>2 ^ 53\<close> stands for the double with mantissa \<open>2 ^ 52\<close> and the next exponent.)
\<close>

definition round53 :: "nat \<Rightarrow> int \<Rightarrow> double" where
  "round53 m e =
     (let k = bit_length m - 53;
          q = m div 2 ^ k;
          r = m mod 2 ^ k
      in \<lparr>mantissa = (if 2 ^ k < 2 * r \<or> (2 * r = 2 ^ k \<and> odd q) then q + 1 else q),
          exponent = e + int k\<rparr>)"

text \<open>
  \<open>d * 255\<close>; \<open>None\<close> is \<open>Infinity\<close>, the result when the rounded product is \<open>2 ^ 1024\<close>
  or more.  The exponent of the product is not below that of \<open>d\<close>, so nothing underflows.
\<close>

definition times255 :: "double \<Rightarrow> double option" where
  "times255 d =
     (let p = round53 (mantissa d * 255) (exponent d)
      in if int (bit_length (mantissa p)) + exponent p > 1024 then None else Some p)"

text \<open>\<open>Math.floor\<close> of a finite double that is not negative.\<close>

definition double_floor :: "double \<Rightarrow> int" where
  "double_floor d =
     (if 0 \<le> exponent d then int (mantissa d) * 2 ^ nat (exponent d)
      else int (mantissa d) div 2 ^ nat (- exponent d))"

text \<open>
  \<open>buf[i] = Math.floor(x)\<close>: storing a number into a \<open>Buffer\<close> keeps the low eight bits of
  an integer and stores 0 for \<open>Infinity\<close>.
\<close>

definition store_floor :: "double option \<Rightarrow> byte" where
  "store_floor x = (case x of None \<Rightarrow> 0 | Some p \<Rightarrow> word_of_int (double_floor p))"

text \<open>\<open>random i\<close> is the value of the \<open>i\<close>-th call of \<open>Math.random()\<close>.\<close>

definition makeID_buf :: "(nat \<Rightarrow> double) \<Rightarrow> byte list" where
  "makeID_buf random =
     fold (\<lambda>i buf. buf[i := store_floor (times255 (random i))]) [0..<30] (alloc 30)"

definition makeID :: "(nat \<Rightarrow> double) \<Rightarrow> string" where
  "makeID random =
     replace_all (CHR ''+'') (CHR ''-'')
       (replace_all (CHR ''/'') (CHR ''_'') (toString_base64 (makeID_buf random)))"

subsection \<open>The envelope as the specification words it\<close>

text \<open>
  Lowercase hexadecimal, padded with zeros on the left to at least \<open>w\<close> digits, and the
  number a hexadecimal field stands for.
\<close>

definition hex_padded :: "nat \<Rightarrow> nat \<Rightarrow> string" where
  "hex_padded w n = replicate (w - length (toString16 n)) (CHR ''0'') @ toString16 n"

definition hex_digit_value :: "char \<Rightarrow> nat" where
  "hex_digit_value c =
     (let v = of_char c in if 48 \<le> v \<and> v \<le> 57 then v - 48 else v - 87)"

definition hex_value :: "string \<Rightarrow> nat" where
  "hex_value s = foldl (\<lambda>a c. 16 * a + hex_digit_value c) 0 s"

definition envelope :: "string \<Rightarrow> nat \<Rightarrow> string" where
  "envelope payload crc =
     ''!CPC'' @ hex_padded 4 (length payload) @ payload @ hex_padded 8 crc @ [CHR 0x0A]"


section \<open>Properties of the registry\<close>


lemma indexOf_notin: "x \<notin> set xs \<Longrightarrow> indexOf xs x = -1"
  by (induction xs) auto

lemma indexOf_range: "x \<in> set xs \<Longrightarrow> 0 \<le> indexOf xs x \<and> indexOf xs x < int (length xs)"
  by (induction xs) (auto simp: Let_def)

lemma indexOf_ge: "- 1 \<le> indexOf xs x"
  by (induction xs) (auto simp: Let_def)

lemma take_drop_indexOf:
  "x \<in> set xs \<Longrightarrow> take (nat (indexOf xs x)) xs @ drop (Suc (nat (indexOf xs x))) xs = remove1 x xs"
proof (induction xs)
  case Nil
  then show ?case by simp
next
  case (Cons y ys)
  show ?case
  proof (cases "y = x")
    case True
    then show ?thesis by simp
  next
    case False
    with Cons.prems have mem: "x \<in> set ys" by simp
    from indexOf_range [OF mem] have "nat (indexOf ys x + 1) = Suc (nat (indexOf ys x))" by arith
    with False mem Cons.IH indexOf_range [OF mem] show ?thesis by (simp add: Let_def)
  qed
qed

lemma splice_member: "x \<in> set xs \<Longrightarrow> array_splice (indexOf xs x) (Suc 0) xs = remove1 x xs"
  using indexOf_range [of x xs] take_drop_indexOf [of x xs]
  by (simp add: array_splice_def Let_def min_def)

lemma splice_nonmember: "x \<notin> set xs \<Longrightarrow> array_splice (indexOf xs x) (Suc 0) xs = butlast xs"
proof (cases "xs = []")
  case True
  then show ?thesis by (simp add: array_splice_def)
next
  case False
  assume "x \<notin> set xs"
  then have i: "indexOf xs x = -1" by (rule indexOf_notin)
  from False have n: "nat (max (int (length xs) + - 1) 0) = length xs - 1"
    by (cases xs) auto
  from False have "drop (Suc (length xs - 1)) xs = []" by (cases xs) auto
  with i n show ?thesis by (simp add: array_splice_def Let_def butlast_conv_take)
qed

lemma length_splice:
  "xs \<noteq> [] \<Longrightarrow> length (array_splice (indexOf xs x) (Suc 0) xs) = length xs - 1"
proof (cases "x \<in> set xs")
  case True
  then show ?thesis by (simp add: splice_member length_remove1)
next
  case False
  then show ?thesis by (simp add: splice_nonmember)
qed



lemma present_iff: "url \<in> set (allSessionIds st) \<longleftrightarrow> map_of (connectionPools st) url \<noteq> None"
  by (simp add: allSessionIds_def map_of_eq_None_iff)

lemma pools_nonempty_iff:
  "pools_nonempty st \<longleftrightarrow> (\<forall>url. map_of (connectionPools st) url \<noteq> Some [])"
  by (auto simp: pools_nonempty_def present_iff membersOf_def split: option.splits)

lemma map_of_on_connection:
  "map_of (connectionPools (on_connection now url s st)) =
     (map_of (connectionPools st))(url \<mapsto> membersOf st url @ [s])"
  by (auto simp: on_connection_def Let_def membersOf_def AList.update_conv' split: option.splits)

lemma membersOf_on_connection:
  "membersOf (on_connection now url s st) u =
     (if u = url then membersOf st url @ [s] else membersOf st u)"
  by (simp add: membersOf_def [of "on_connection now url s st"] map_of_on_connection)
     (simp add: membersOf_def)

lemma on_close_Some:
  assumes "map_of (connectionPools st) url = Some pool"
  shows "on_close url f s st =
     Inr (if array_splice (indexOf pool s) (Suc 0) pool = []
          then st\<lparr>connectionPools := AList.delete url (connectionPools st),
                  connectionPoolOpen := AList.delete url (connectionPoolOpen st),
                  pipeCount := pipeCount st - 1\<rparr>
          else st\<lparr>connectionPools :=
                    AList.update url (array_splice (indexOf pool s) (Suc 0) pool) (connectionPools st)\<rparr>,
          if f then array_splice (indexOf pool s) (Suc 0) pool else [])"
  using assms by (simp add: on_close_def Let_def AList.delete_update_same)

lemma on_close_Inr:
  assumes "on_close url f s st = Inr (st', cl)"
  shows "\<exists>pool. map_of (connectionPools st) url = Some pool \<and>
       cl = (if f then array_splice (indexOf pool s) (Suc 0) pool else []) \<and>
       (\<forall>u. map_of (connectionPools st') u =
         (if u = url
          then (if array_splice (indexOf pool s) (Suc 0) pool = [] then None
                else Some (array_splice (indexOf pool s) (Suc 0) pool))
          else map_of (connectionPools st) u))"
proof (cases "map_of (connectionPools st) url")
  case None
  with assms show ?thesis by (simp add: on_close_def)
next
  case (Some pool)
  from assms have eq: "Inr (st', cl) = on_close url f s st" by simp
  have "cl = (if f then array_splice (indexOf pool s) (Suc 0) pool else [])"
    using eq unfolding on_close_Some [OF Some] by simp
  moreover have "map_of (connectionPools st') u =
         (if u = url
          then (if array_splice (indexOf pool s) (Suc 0) pool = [] then None
                else Some (array_splice (indexOf pool s) (Suc 0) pool))
          else map_of (connectionPools st) u)" for u
  proof (cases "array_splice (indexOf pool s) (Suc 0) pool = []")
    case True
    with eq have "connectionPools st' = AList.delete url (connectionPools st)"
      unfolding on_close_Some [OF Some] by simp
    with True show ?thesis by (simp add: AList.delete_conv')
  next
    case False
    with eq have "connectionPools st' =
       AList.update url (array_splice (indexOf pool s) (Suc 0) pool) (connectionPools st)"
      unfolding on_close_Some [OF Some] by simp
    with False show ?thesis by (simp add: AList.update_conv')
  qed
  ultimately show ?thesis using Some by blast
qed

lemma on_close_defined:
  "map_of (connectionPools st) url = Some pool \<Longrightarrow> \<exists>st' cl. on_close url f s st = Inr (st', cl)"
  by (simp add: on_close_def Let_def)

lemma on_close_undefined:
  "map_of (connectionPools st) url = None \<Longrightarrow> on_close url f s st = Inl TypeError"
  by (simp add: on_close_def)

lemma membersOf_on_close:
  assumes "on_close url f s st = Inr (st', cl)"
  shows "membersOf st' u =
     (if u = url then array_splice (indexOf (membersOf st url) s) (Suc 0) (membersOf st url)
      else membersOf st u)"
  using on_close_Inr [OF assms] by (auto simp: membersOf_def)

lemma pools_nonempty_on_connection: "pools_nonempty st \<Longrightarrow> pools_nonempty (on_connection now url s st)"
  by (simp add: pools_nonempty_iff map_of_on_connection)

lemma pools_nonempty_on_close:
  assumes "pools_nonempty st" and "on_close url f s st = Inr (st', cl)"
  shows "pools_nonempty st'"
proof -
  from on_close_Inr [OF assms(2)] obtain pool where
    m: "\<forall>u. map_of (connectionPools st') u =
         (if u = url
          then (if array_splice (indexOf pool s) (Suc 0) pool = [] then None
                else Some (array_splice (indexOf pool s) (Suc 0) pool))
          else map_of (connectionPools st) u)" by blast
  have "map_of (connectionPools st') u \<noteq> Some []" for u
    using m assms(1) by (simp add: pools_nonempty_iff)
  then show ?thesis by (simp add: pools_nonempty_iff)
qed

lemma step_Message_state: "step (Message url s m) st = Inr (st', out) \<Longrightarrow> st' = st"
  by (auto split: sum.splits)

lemma pools_nonempty_step:
  assumes "pools_nonempty st" and "step e st = Inr (st', out)"
  shows "pools_nonempty st'"
proof (cases e)
  case (Connection now url s)
  with assms show ?thesis by (auto simp: pools_nonempty_on_connection)
next
  case (Message url s m)
  with assms step_Message_state [of url s m st st' out] show ?thesis by simp
next
  case (Close url f s)
  with assms(2) obtain cl where "on_close url f s st = Inr (st', cl)"
    by (auto split: sum.splits)
  from pools_nonempty_on_close [OF assms(1) this] show ?thesis .
qed

lemma run_Cons_Inr:
  "run (e # es) st = Inr (st'', out) \<Longrightarrow>
     \<exists>st' o1 o2. step e st = Inr (st', o1) \<and> run es st' = Inr (st'', o2) \<and> out = o1 @ o2"
  by (auto split: sum.splits)

lemma pools_nonempty_run:
  "pools_nonempty st \<Longrightarrow> run es st = Inr (st', out) \<Longrightarrow> pools_nonempty st'"
proof (induction es arbitrary: st out)
  case Nil
  then show ?case by simp
next
  case (Cons e es)
  from run_Cons_Inr [OF Cons.prems(2)] obtain st1 o1 o2
    where s: "step e st = Inr (st1, o1)" and r: "run es st1 = Inr (st', o2)" by blast
  from pools_nonempty_step [OF Cons.prems(1) s] have "pools_nonempty st1" .
  from Cons.IH [OF this r] show ?case .
qed

lemma pools_nonempty_createServer: "pools_nonempty createServer"
  by (simp add: pools_nonempty_def createServer_def allSessionIds_def)

text \<open>
  Claim C3.  In every registry state reached from the empty registry by a sequence of
  events (joins, leaves, and messages, which leave the registry alone), a session identifier
  is among \<open>allSessionIds\<close> exactly when its member list is not empty; and when a session
  has one member, the \<open>close\<close> handler run on it leaves the identifier absent.
\<close>

theorem registry_present_iff_nonempty:
  assumes "run es createServer = Inr (st, out)"
  shows "(url \<in> set (allSessionIds st) \<longleftrightarrow> membersOf st url \<noteq> [])
       \<and> (length (membersOf st url) = 1 \<longrightarrow>
            (\<exists>st' cl. on_close url f s st = Inr (st', cl)
               \<and> membersOf st' url = [] \<and> url \<notin> set (allSessionIds st')))"
proof -
  have inv: "pools_nonempty st"
    using pools_nonempty_run [OF pools_nonempty_createServer assms] .
  have a: "url \<in> set (allSessionIds st) \<longleftrightarrow> membersOf st url \<noteq> []"
    using inv by (auto simp: pools_nonempty_iff present_iff membersOf_def split: option.splits)
  have b: "\<exists>st' cl. on_close url f s st = Inr (st', cl)
               \<and> membersOf st' url = [] \<and> url \<notin> set (allSessionIds st')"
    if one: "length (membersOf st url) = 1"
  proof -
    from one obtain pool where p: "map_of (connectionPools st) url = Some pool"
      by (auto simp: membersOf_def split: option.splits)
    from on_close_defined [OF p] obtain st' cl where c: "on_close url f s st = Inr (st', cl)"
      by blast
    from one have ne: "membersOf st url \<noteq> []" by auto
    have m: "membersOf st' url = []"
      using membersOf_on_close [OF c, of url] length_splice [OF ne, of s] one by simp
    have inv': "pools_nonempty st'" using pools_nonempty_on_close [OF inv c] .
    have "url \<notin> set (allSessionIds st')"
      using inv' m by (auto simp: pools_nonempty_def)
    with c m show ?thesis by blast
  qed
  from a b show ?thesis by blast
qed


theorem registry_present_iff_nonempty_witness:
  "run [Connection 0 ''/S'' 1 :: string event] createServer
     = Inr (\<lparr>connectionPools = [(''/S'', [1])], connectionPoolOpen = [(''/S'', 0)], pipeCount = 1\<rparr>, [])
   \<and> ''/S'' \<in> set (allSessionIds
         \<lparr>connectionPools = [(''/S'', [1])], connectionPoolOpen = [(''/S'', 0)], pipeCount = 1\<rparr>)
   \<and> membersOf \<lparr>connectionPools = [(''/S'', [1])], connectionPoolOpen = [(''/S'', 0)], pipeCount = 1\<rparr> ''/S'' = [1]
   \<and> (\<exists>st' cl. on_close ''/S'' False 1
           \<lparr>connectionPools = [(''/S'', [1])], connectionPoolOpen = [(''/S'', 0)], pipeCount = 1\<rparr> = Inr (st', cl)
         \<and> membersOf st' ''/S'' = [] \<and> ''/S'' \<notin> set (allSessionIds st'))"
proof -
  have r: "run [Connection 0 ''/S'' 1 :: string event] createServer
     = Inr (\<lparr>connectionPools = [(''/S'', [1])], connectionPoolOpen = [(''/S'', 0)], pipeCount = 1\<rparr>, [])"
    by (simp add: createServer_def on_connection_def Let_def)
  have m: "membersOf \<lparr>connectionPools = [(''/S'', [1])], connectionPoolOpen = [(''/S'', 0)], pipeCount = 1\<rparr> ''/S'' = [1]"
    by (simp add: membersOf_def)
  from registry_present_iff_nonempty [OF r, of "''/S''" False 1] r m show ?thesis
    by simp
qed

lemma step_count:
  assumes inv: "pools_nonempty st0" and st: "step e st0 = Inr (st, out)"
  shows "int (memberCount st url) =
     int (memberCount st0 url) + (if is_join url e then 1 else 0) - (if is_leave url e then 1 else 0)"
proof (cases e)
  case (Connection now u s)
  with st have "st = on_connection now u s st0" by simp
  with Connection show ?thesis by (simp add: memberCount_def membersOf_on_connection)
next
  case (Message u s m)
  with st step_Message_state [of u s m st0 st out] show ?thesis by simp
next
  case (Close u f s)
  with st obtain cl where c: "on_close u f s st0 = Inr (st, cl)"
    by (auto split: sum.splits)
  show ?thesis
  proof (cases "u = url")
    case False
    with Close membersOf_on_close [OF c, of url] show ?thesis by (simp add: memberCount_def)
  next
    case True
    from on_close_Inr [OF c] obtain pool where "map_of (connectionPools st0) u = Some pool"
      by blast
    with inv have ne: "membersOf st0 u \<noteq> []"
      by (auto simp: pools_nonempty_iff membersOf_def)
    then have "int (length (membersOf st0 u) - Suc 0) = int (length (membersOf st0 u)) - 1"
      by (cases "membersOf st0 u") auto
    with True Close membersOf_on_close [OF c, of url] length_splice [OF ne, of s]
    show ?thesis by (simp add: memberCount_def)
  qed
qed

lemma run_count:
  "pools_nonempty st0 \<Longrightarrow> run es st0 = Inr (st, out) \<Longrightarrow>
     int (memberCount st url) = int (memberCount st0 url) + int (joins url es) - int (leaves url es)"
proof (induction es arbitrary: st0 out)
  case Nil
  then show ?case by (simp add: joins_def leaves_def)
next
  case (Cons e es)
  from run_Cons_Inr [OF Cons.prems(2)] obtain st1 o1 o2
    where s: "step e st0 = Inr (st1, o1)" and r: "run es st1 = Inr (st, o2)" by blast
  have inv1: "pools_nonempty st1" using pools_nonempty_step [OF Cons.prems(1) s] .
  from Cons.IH [OF inv1 r] step_count [OF Cons.prems(1) s, of url]
  show ?case by (simp add: joins_def leaves_def)
qed

lemma run_take:
  "run es st0 = Inr (st, out) \<Longrightarrow> \<exists>st' out'. run (take n es) st0 = Inr (st', out')"
proof (induction es arbitrary: st0 out n)
  case Nil
  then show ?case by simp
next
  case (Cons e es)
  from run_Cons_Inr [OF Cons.prems] obtain st1 o1 o2
    where s: "step e st0 = Inr (st1, o1)" and r: "run es st1 = Inr (st, o2)" by blast
  show ?case
  proof (cases n)
    case 0
    then show ?thesis by simp
  next
    case (Suc k)
    from Cons.IH [OF r, of k] obtain st' out' where "run (take k es) st1 = Inr (st', out')"
      by blast
    with s Suc show ?thesis by simp
  qed
qed

lemma memberCount_createServer: "memberCount createServer url = 0"
  by (simp add: memberCount_def membersOf_def createServer_def)

text \<open>
  In a run that does not throw, the member count of a session is the number of its joins
  minus the number of its leaves, after every prefix.
\<close>

lemma member_count_of_run:
  assumes "run es createServer = Inr (st, out)"
  shows "int (memberCount st url) = int (joins url es) - int (leaves url es)
       \<and> (\<forall>n \<le> length es. \<exists>st' out'.
             run (take n es) createServer = Inr (st', out')
           \<and> int (memberCount st' url) = int (joins url (take n es)) - int (leaves url (take n es))
           \<and> 0 \<le> int (joins url (take n es)) - int (leaves url (take n es)))"
proof -
  have a: "int (memberCount st url) = int (joins url es) - int (leaves url es)"
    using run_count [OF pools_nonempty_createServer assms, of url]
    by (simp add: memberCount_createServer)
  have b: "\<exists>st' out'.
             run (take n es) createServer = Inr (st', out')
           \<and> int (memberCount st' url) = int (joins url (take n es)) - int (leaves url (take n es))
           \<and> 0 \<le> int (joins url (take n es)) - int (leaves url (take n es))" for n
  proof -
    from run_take [OF assms, of n] obtain st' out'
      where r: "run (take n es) createServer = Inr (st', out')" by blast
    have "int (memberCount st' url) = int (joins url (take n es)) - int (leaves url (take n es))"
      using run_count [OF pools_nonempty_createServer r, of url]
      by (simp add: memberCount_createServer)
    moreover from this have "0 \<le> int (joins url (take n es)) - int (leaves url (take n es))"
      by linarith
    ultimately show ?thesis using r by blast
  qed
  from a b show ?thesis by blast
qed



lemma close_members_in_order:
  "distinct p \<Longrightarrow> p \<noteq> [] \<Longrightarrow> map_of (connectionPools st) url = Some p \<Longrightarrow>
     \<exists>st' out. run (map (\<lambda>s. Close url (flag s) s) p) st = Inr (st', out :: 'm action list)
        \<and> map_of (connectionPools st') url = None"
proof (induction p arbitrary: st)
  case Nil
  then show ?case by simp
next
  case (Cons s rest)
  have sp: "array_splice (indexOf (s # rest) s) (Suc 0) (s # rest) = rest"
    using splice_member [of s "s # rest"] by simp
  obtain st1 cl where c: "on_close url (flag s) s st = Inr (st1, cl)"
    using on_close_defined [OF Cons.prems(3)] by blast
  from on_close_Inr [OF c] Cons.prems(3) sp
  have m1: "map_of (connectionPools st1) url = (if rest = [] then None else Some rest)"
    by auto
  have s1: "step (Close url (flag s) s :: 'm event) st = Inr (st1, map CloseSocket cl)"
    using c by simp
  show ?case
  proof (cases "rest = []")
    case True
    with m1 s1 show ?thesis by simp
  next
    case False
    with m1 have "map_of (connectionPools st1) url = Some rest" by simp
    from Cons.IH [OF _ False this] Cons.prems(1)
    obtain st' and out :: "'m action list"
      where "run (map (\<lambda>s. Close url (flag s) s) rest) st1 = Inr (st', out)"
        and "map_of (connectionPools st') url = None" by auto
    with s1 show ?thesis by simp
  qed
qed

text \<open>
  The \<open>close\<close> handler, given the flag.  Let \<open>m\<close> be a member of the session \<open>url\<close>,
  whose pool holds each socket once.  If the flag \<open>isServer\<close> is set, the handler calls
  \<open>close()\<close> on every other member of the pool, and once the \<open>close\<close> events of these
  members have been handled the session is absent from the registry.  If the flag is not
  set, the handler calls \<open>close()\<close> on no socket, and when other members remain the session
  is still present and holds exactly them.
\<close>

lemma close_handler_cascade:
  assumes p: "map_of (connectionPools st) url = Some pool"
      and m: "m \<in> set pool" and d: "distinct pool"
  shows "(\<exists>st'. on_close url True m st = Inr (st', remove1 m pool)
           \<and> set (remove1 m pool) = set pool - {m}
           \<and> (\<exists>st'' out. run (map (\<lambda>s. Close url (flag s) s) (remove1 m pool)) st'
                              = Inr (st'', out :: 'm action list)
                \<and> url \<notin> set (allSessionIds st'')))
       \<and> (\<exists>st'. on_close url False m st = Inr (st', [])
           \<and> (remove1 m pool \<noteq> [] \<longrightarrow>
                 url \<in> set (allSessionIds st') \<and> membersOf st' url = remove1 m pool))"
proof (rule conjI)
  have sp: "array_splice (indexOf pool m) (Suc 0) pool = remove1 m pool"
    using m by (rule splice_member)
  obtain st' cl where c: "on_close url True m st = Inr (st', cl)"
    using on_close_defined [OF p] by blast
  from on_close_Inr [OF c] p sp
  have cl: "cl = remove1 m pool"
    and m': "map_of (connectionPools st') url = (if remove1 m pool = [] then None else Some (remove1 m pool))"
    by auto
  have "\<exists>st'' out. run (map (\<lambda>s. Close url (flag s) s) (remove1 m pool)) st'
                              = Inr (st'', out :: 'm action list)
                \<and> url \<notin> set (allSessionIds st'')"
  proof (cases "remove1 m pool = []")
    case True
    with m' show ?thesis by (simp add: present_iff)
  next
    case False
    with m' have "map_of (connectionPools st') url = Some (remove1 m pool)" by simp
    from close_members_in_order [OF _ False this, of flag] d
    show ?thesis by (simp add: present_iff)
  qed
  moreover have "set (remove1 m pool) = set pool - {m}" using d by simp
  ultimately show "\<exists>st'. on_close url True m st = Inr (st', remove1 m pool)
           \<and> set (remove1 m pool) = set pool - {m}
           \<and> (\<exists>st'' out. run (map (\<lambda>s. Close url (flag s) s) (remove1 m pool)) st'
                              = Inr (st'', out :: 'm action list)
                \<and> url \<notin> set (allSessionIds st''))"
    using c cl by blast
next
  have sp: "array_splice (indexOf pool m) (Suc 0) pool = remove1 m pool"
    using m by (rule splice_member)
  obtain st' cl where c: "on_close url False m st = Inr (st', cl)"
    using on_close_defined [OF p] by blast
  from on_close_Inr [OF c] p sp
  have cl: "cl = []"
    and m': "map_of (connectionPools st') url = (if remove1 m pool = [] then None else Some (remove1 m pool))"
    by auto
  from m' have "remove1 m pool \<noteq> [] \<longrightarrow>
                 url \<in> set (allSessionIds st') \<and> membersOf st' url = remove1 m pool"
    by (simp add: present_iff membersOf_def)
  with c cl show "\<exists>st'. on_close url False m st = Inr (st', [])
           \<and> (remove1 m pool \<noteq> [] \<longrightarrow>
                 url \<in> set (allSessionIds st') \<and> membersOf st' url = remove1 m pool)"
    by blast
qed

lemma close_handler_cascade_example:
  "map_of (connectionPools \<lparr>connectionPools = [(''/S'', [1, 2])], connectionPoolOpen = [(''/S'', 0)], pipeCount = 1\<rparr>)
      ''/S'' = Some [1, 2]
   \<and> (1::nat) \<in> set [1, 2] \<and> distinct [1, 2 :: nat]
   \<and> on_close ''/S'' True 1 \<lparr>connectionPools = [(''/S'', [1, 2])], connectionPoolOpen = [(''/S'', 0)], pipeCount = 1\<rparr>
       = Inr (\<lparr>connectionPools = [(''/S'', [2])], connectionPoolOpen = [(''/S'', 0)], pipeCount = 1\<rparr>, [2])
   \<and> run [Close ''/S'' False 2 :: string event]
         \<lparr>connectionPools = [(''/S'', [2])], connectionPoolOpen = [(''/S'', 0)], pipeCount = 1\<rparr>
       = Inr (createServer, [])
   \<and> on_close ''/S'' False 2 \<lparr>connectionPools = [(''/S'', [1, 2])], connectionPoolOpen = [(''/S'', 0)], pipeCount = 1\<rparr>
       = Inr (\<lparr>connectionPools = [(''/S'', [1])], connectionPoolOpen = [(''/S'', 0)], pipeCount = 1\<rparr>, [])
   \<and> ((\<exists>st'. on_close ''/S'' True 1
              \<lparr>connectionPools = [(''/S'', [1, 2])], connectionPoolOpen = [(''/S'', 0)], pipeCount = 1\<rparr>
            = Inr (st', remove1 1 [1, 2])
           \<and> set (remove1 (1::nat) [1, 2]) = set [1, 2] - {1}
           \<and> (\<exists>st'' out. run (map (\<lambda>s. Close ''/S'' False s) (remove1 1 [1, 2])) st'
                              = Inr (st'', out :: string action list)
                \<and> ''/S'' \<notin> set (allSessionIds st'')))
       \<and> (\<exists>st'. on_close ''/S'' False 1
              \<lparr>connectionPools = [(''/S'', [1, 2])], connectionPoolOpen = [(''/S'', 0)], pipeCount = 1\<rparr>
            = Inr (st', [])
           \<and> (remove1 (1::nat) [1, 2] \<noteq> [] \<longrightarrow>
                 ''/S'' \<in> set (allSessionIds st') \<and> membersOf st' ''/S'' = remove1 1 [1, 2])))"
proof -
  have h1: "map_of (connectionPools \<lparr>connectionPools = [(''/S'', [1, 2])], connectionPoolOpen = [(''/S'', 0)], pipeCount = 1\<rparr>)
      ''/S'' = Some [1, 2]" by simp
  have h2: "(1::nat) \<in> set [1, 2]" by simp
  have h3: "distinct [1, 2 :: nat]" by simp
  have e1: "on_close ''/S'' True 1 \<lparr>connectionPools = [(''/S'', [1, 2])], connectionPoolOpen = [(''/S'', 0)], pipeCount = 1\<rparr>
       = Inr (\<lparr>connectionPools = [(''/S'', [2])], connectionPoolOpen = [(''/S'', 0)], pipeCount = 1\<rparr>, [2])"
    by (simp add: on_close_def array_splice_def Let_def)
  have e2: "run [Close ''/S'' False 2 :: string event]
         \<lparr>connectionPools = [(''/S'', [2])], connectionPoolOpen = [(''/S'', 0)], pipeCount = 1\<rparr>
       = Inr (createServer, [])"
    by (simp add: on_close_def array_splice_def Let_def createServer_def)
  have e3: "on_close ''/S'' False 2 \<lparr>connectionPools = [(''/S'', [1, 2])], connectionPoolOpen = [(''/S'', 0)], pipeCount = 1\<rparr>
       = Inr (\<lparr>connectionPools = [(''/S'', [1])], connectionPoolOpen = [(''/S'', 0)], pipeCount = 1\<rparr>, [])"
    by (simp add: on_close_def array_splice_def Let_def)
  note c = close_handler_cascade [OF h1 h2 h3, of "\<lambda>s. False", where ?'m = string]
  show ?thesis
    by (rule conjI [OF h1 conjI [OF h2 conjI [OF h3 conjI [OF e1 conjI [OF e2 conjI [OF e3 c]]]]]])
qed

lemma cleanupInterval_iff:
  "s \<in> set (cleanupInterval now st) \<longleftrightarrow>
     (\<exists>x t. map_of (connectionPools st) x = Some [s]
          \<and> map_of (connectionPoolOpen st) x = Some t \<and> now - t > 60000)"
proof
  assume "s \<in> set (cleanupInterval now st)"
  then obtain x where
    b: "s \<in> set (case map_of (connectionPools st) x of
          None \<Rightarrow> []
        | Some pool \<Rightarrow>
            if length pool = 1 \<and>
               (case map_of (connectionPoolOpen st) x of None \<Rightarrow> False | Some t \<Rightarrow> now - t > 60000)
            then [pool ! 0] else [])"
    unfolding cleanupInterval_def set_concat set_map by blast
  then obtain pool where p: "map_of (connectionPools st) x = Some pool"
    by (cases "map_of (connectionPools st) x") auto
  with b have c: "s \<in> set (if length pool = 1 \<and>
               (case map_of (connectionPoolOpen st) x of None \<Rightarrow> False | Some t \<Rightarrow> now - t > 60000)
            then [pool ! 0] else [])"
    by simp
  from c have l: "length pool = 1" and s: "s = pool ! 0"
    and a: "(case map_of (connectionPoolOpen st) x of None \<Rightarrow> False | Some t \<Rightarrow> now - t > 60000)"
    by (auto split: if_splits)
  from l s have "pool = [s]" by (cases pool) auto
  with p a show "\<exists>x t. map_of (connectionPools st) x = Some [s]
          \<and> map_of (connectionPoolOpen st) x = Some t \<and> now - t > 60000"
    by (auto split: option.splits)
next
  assume "\<exists>x t. map_of (connectionPools st) x = Some [s]
          \<and> map_of (connectionPoolOpen st) x = Some t \<and> now - t > 60000"
  then obtain x t where p: "map_of (connectionPools st) x = Some [s]"
    and o: "map_of (connectionPoolOpen st) x = Some t" and a: "now - t > 60000" by blast
  from p have "x \<in> fst ` set (connectionPools st)"
    by (metis map_of_eq_None_iff option.distinct(1))
  with p o a show "s \<in> set (cleanupInterval now st)"
    by (force simp: cleanupInterval_def)
qed


text \<open>
  Claim C5.  Take a session \<open>x\<close> with pool \<open>pool\<close> and creation time \<open>t\<close> whose members
  belong to no other session.  A sweep of the reaper at time \<open>now\<close> (milliseconds) calls
  \<open>close()\<close> on the member of \<open>x\<close> when \<open>x\<close> has exactly one member and its age
  \<open>now - t\<close> exceeds 60000; it calls \<open>close()\<close> on no member of \<open>x\<close> when \<open>x\<close> has exactly
  one member and its age does not exceed 60000, nor when \<open>x\<close> has two or more members,
  whatever its age.
\<close>

theorem reaper_sweep:
  assumes p: "map_of (connectionPools st) x = Some pool"
      and o: "map_of (connectionPoolOpen st) x = Some t"
      and u: "\<forall>y q. y \<noteq> x \<and> map_of (connectionPools st) y = Some q \<longrightarrow> set q \<inter> set pool = {}"
  shows "(length pool = 1 \<and> now - t > 60000 \<longrightarrow> set pool \<subseteq> set (cleanupInterval now st))
       \<and> (length pool = 1 \<and> now - t \<le> 60000 \<longrightarrow> set pool \<inter> set (cleanupInterval now st) = {})
       \<and> (length pool \<ge> 2 \<longrightarrow> set pool \<inter> set (cleanupInterval now st) = {})"
proof -
  have a: "set pool \<subseteq> set (cleanupInterval now st)" if "length pool = 1" "now - t > 60000"
  proof -
    from that(1) obtain s where "pool = [s]" by (cases pool) auto
    with p o that(2) show ?thesis by (auto simp: cleanupInterval_iff)
  qed
  have b: "set pool \<inter> set (cleanupInterval now st) = {}"
    if "now - t \<le> 60000 \<or> length pool \<ge> 2"
  proof -
    have False if m: "s \<in> set pool" and c: "s \<in> set (cleanupInterval now st)" for s
    proof -
      from c obtain y t' where y: "map_of (connectionPools st) y = Some [s]"
        and o': "map_of (connectionPoolOpen st) y = Some t'" and a': "now - t' > 60000"
        by (auto simp: cleanupInterval_iff)
      show False
      proof (cases "y = x")
        case True
        with y p o o' a' \<open>now - t \<le> 60000 \<or> length pool \<ge> 2\<close> show False by auto
      next
        case False
        with u y have "set [s] \<inter> set pool = {}" by blast
        with m show False by simp
      qed
    qed
    then show ?thesis by blast
  qed
  from a b show ?thesis by blast
qed

theorem reaper_sweep_witness:
  "map_of (connectionPools \<lparr>connectionPools = [(''/A'', [1]), (''/B'', [2, 3])],
                             connectionPoolOpen = [(''/A'', 0), (''/B'', 0)], pipeCount = 2\<rparr>) ''/A'' = Some [1]
   \<and> map_of (connectionPoolOpen \<lparr>connectionPools = [(''/A'', [1]), (''/B'', [2, 3])],
                             connectionPoolOpen = [(''/A'', 0), (''/B'', 0)], pipeCount = 2\<rparr>) ''/A'' = Some 0
   \<and> cleanupInterval 100000 \<lparr>connectionPools = [(''/A'', [1]), (''/B'', [2, 3])],
                             connectionPoolOpen = [(''/A'', 0), (''/B'', 0)], pipeCount = 2\<rparr> = [1]
   \<and> cleanupInterval 60000 \<lparr>connectionPools = [(''/A'', [1]), (''/B'', [2, 3])],
                             connectionPoolOpen = [(''/A'', 0), (''/B'', 0)], pipeCount = 2\<rparr> = []
   \<and> set [1] \<subseteq> set (cleanupInterval 100000 \<lparr>connectionPools = [(''/A'', [1]), (''/B'', [2, 3])],
                             connectionPoolOpen = [(''/A'', 0), (''/B'', 0)], pipeCount = 2\<rparr>)
   \<and> set [1] \<inter> set (cleanupInterval 60000 \<lparr>connectionPools = [(''/A'', [1]), (''/B'', [2, 3])],
                             connectionPoolOpen = [(''/A'', 0), (''/B'', 0)], pipeCount = 2\<rparr>) = {}
   \<and> set [2, 3] \<inter> set (cleanupInterval 100000 \<lparr>connectionPools = [(''/A'', [1]), (''/B'', [2, 3])],
                             connectionPoolOpen = [(''/A'', 0), (''/B'', 0)], pipeCount = 2\<rparr>) = {}"
proof -
  let ?st = "\<lparr>connectionPools = [(''/A'', [1]), (''/B'', [2, 3])],
              connectionPoolOpen = [(''/A'', 0), (''/B'', 0)], pipeCount = 2\<rparr>"
  have h1: "map_of (connectionPools ?st) ''/A'' = Some [1]" by simp
  have h2: "map_of (connectionPoolOpen ?st) ''/A'' = Some 0" by simp
  have h3: "\<forall>y q. y \<noteq> ''/A'' \<and> map_of (connectionPools ?st) y = Some q \<longrightarrow> set q \<inter> set [1] = {}"
    by (auto split: if_splits)
  have k1: "map_of (connectionPools ?st) ''/B'' = Some [2, 3]" by simp
  have k2: "map_of (connectionPoolOpen ?st) ''/B'' = Some 0" by simp
  have k3: "\<forall>y q. y \<noteq> ''/B'' \<and> map_of (connectionPools ?st) y = Some q \<longrightarrow> set q \<inter> set [2, 3] = {}"
    by (auto split: if_splits)
  have e1: "cleanupInterval 100000 ?st = [1]" by (simp add: cleanupInterval_def)
  have e2: "cleanupInterval 60000 ?st = []" by (simp add: cleanupInterval_def)
  have c1: "set [1] \<subseteq> set (cleanupInterval 100000 ?st)"
    using reaper_sweep [OF h1 h2 h3, of 100000] by simp
  have c2: "set [1] \<inter> set (cleanupInterval 60000 ?st) = {}"
    using reaper_sweep [OF h1 h2 h3, of 60000] by simp
  have c3: "set [2, 3] \<inter> set (cleanupInterval 100000 ?st) = {}"
    using reaper_sweep [OF k1 k2 k3, of 100000] by simp
  show ?thesis
    by (rule conjI [OF h1 conjI [OF h2 conjI [OF e1 conjI [OF e2 conjI [OF c1 conjI [OF c2 c3]]]]]])
qed

lemma run_connections:
  "run (map (\<lambda>(now, u, s). Connection now u s) js) st = Inr (st', out) \<Longrightarrow> out = []"
proof (induction js arbitrary: st out)
  case Nil
  then show ?case by simp
next
  case (Cons j js)
  obtain now u s where j: "j = (now, u, s)" by (cases j) auto
  from Cons.prems j obtain o2 where
    "run (map (\<lambda>(now, u, s). Connection now u s) js) (on_connection now u s st) = Inr (st', o2)"
    and "out = o2" by (auto split: sum.splits)
  with Cons.IH show ?case by blast
qed

lemma run_connections_defined:
  "\<exists>st' out. run (map (\<lambda>(now, u, s). Connection now u s) js) st = Inr (st', out)"
proof (induction js arbitrary: st)
  case Nil
  then show ?case by simp
next
  case (Cons j js)
  obtain now u s where j: "j = (now, u, s)" by (cases j) auto
  from Cons.IH [of "on_connection now u s st"] j show ?case by auto
qed

text \<open>
  Claim C6.  When a message arrives from the socket \<open>m\<close> of a session with pool \<open>pool\<close>, the
  \<open>message\<close> handler raises nothing and sends that message, unchanged, to every member of
  the pool other than \<open>m\<close> (once each when the pool holds each socket once), and to nobody
  else, in particular not to \<open>m\<close>; when the pool has no member other than \<open>m\<close> nothing is
  sent.  The registry is not changed, and whatever sockets connect afterwards, the run makes
  no further \<open>send\<close>: the message is not kept for later members.
\<close>

theorem relay_no_echo_no_buffer:
  assumes p: "map_of (connectionPools st) url = Some pool"
  shows "\<exists>sends. on_message url m msg st = Inr sends
      \<and> (\<forall>s \<in> set pool. s \<noteq> m \<longrightarrow> (s, msg) \<in> set sends)
      \<and> (\<forall>(s, x) \<in> set sends. x = msg \<and> s \<in> set pool \<and> s \<noteq> m)
      \<and> (distinct pool \<longrightarrow> distinct (map fst sends))
      \<and> ((\<forall>s \<in> set pool. s = m) \<longrightarrow> sends = [])
      \<and> (\<exists>st'. run (Message url m msg # map (\<lambda>(now, u, s). Connection now u s) js) st
                  = Inr (st', map (\<lambda>(s, x). Send s x) sends))"
proof -
  let ?sends = "[(s, msg). s \<leftarrow> pool, s \<noteq> m]"
  have e: "on_message url m msg st = Inr ?sends" using p by (simp add: on_message_def)
  have a: "\<forall>s \<in> set pool. s \<noteq> m \<longrightarrow> (s, msg) \<in> set ?sends" by auto
  have b: "\<forall>(s, x) \<in> set ?sends. x = msg \<and> s \<in> set pool \<and> s \<noteq> m" by auto
  have f: "map fst ?sends = filter (\<lambda>s. s \<noteq> m) pool" by (induction pool) auto
  have c: "distinct pool \<longrightarrow> distinct (map fst ?sends)" unfolding f by simp
  have d: "(\<forall>s \<in> set pool. s = m) \<longrightarrow> ?sends = []" by (induction pool) auto
  obtain st' and out :: "'a action list"
    where r: "run (map (\<lambda>(now, u, s). Connection now u s) js) st = Inr (st', out)"
    using run_connections_defined [of js st] by blast
  from run_connections [OF r] have "out = []" .
  with r e have g: "run (Message url m msg # map (\<lambda>(now, u, s). Connection now u s) js) st
                  = Inr (st', map (\<lambda>(s, x). Send s x) ?sends)" by simp
  from e a b c d g show ?thesis by blast
qed


theorem relay_no_echo_no_buffer_witness:
  "map_of (connectionPools \<lparr>connectionPools = [(''/S'', [1, 2])], connectionPoolOpen = [(''/S'', 0)], pipeCount = 1\<rparr>)
      ''/S'' = Some [1, 2]
   \<and> on_message ''/S'' 1 ''hello''
        \<lparr>connectionPools = [(''/S'', [1, 2])], connectionPoolOpen = [(''/S'', 0)], pipeCount = 1\<rparr>
       = Inr [(2, ''hello'')]
   \<and> run [Message ''/S'' 1 ''hello'', Connection 5 ''/S'' 3]
        \<lparr>connectionPools = [(''/S'', [1])], connectionPoolOpen = [(''/S'', 0)], pipeCount = 1\<rparr>
       = Inr (\<lparr>connectionPools = [(''/S'', [1, 3])], connectionPoolOpen = [(''/S'', 0)], pipeCount = 1\<rparr>, [])
   \<and> (\<exists>sends. on_message ''/S'' 1 ''hello''
          \<lparr>connectionPools = [(''/S'', [1, 2])], connectionPoolOpen = [(''/S'', 0)], pipeCount = 1\<rparr> = Inr sends
      \<and> (\<forall>s \<in> set [1, 2]. s \<noteq> 1 \<longrightarrow> (s, ''hello'') \<in> set sends)
      \<and> (\<forall>(s, x) \<in> set sends. x = ''hello'' \<and> s \<in> set [1, 2] \<and> s \<noteq> 1)
      \<and> (distinct [1, 2 :: nat] \<longrightarrow> distinct (map fst sends))
      \<and> ((\<forall>s \<in> set [1, 2 :: nat]. s = 1) \<longrightarrow> sends = [])
      \<and> (\<exists>st'. run (Message ''/S'' 1 ''hello'' # map (\<lambda>(now, u, s). Connection now u s) [(5, ''/S'', 3)])
                    \<lparr>connectionPools = [(''/S'', [1, 2])], connectionPoolOpen = [(''/S'', 0)], pipeCount = 1\<rparr>
                  = Inr (st', map (\<lambda>(s, x). Send s x) sends)))"
proof -
  let ?st = "\<lparr>connectionPools = [(''/S'', [1, 2])], connectionPoolOpen = [(''/S'', 0)], pipeCount = 1\<rparr>"
  have h1: "map_of (connectionPools ?st) ''/S'' = Some [1, 2]" by simp
  have e1: "on_message ''/S'' 1 ''hello'' ?st = Inr [(2, ''hello'')]"
    by (simp add: on_message_def)
  have e2: "run [Message ''/S'' 1 ''hello'', Connection 5 ''/S'' 3]
        \<lparr>connectionPools = [(''/S'', [1])], connectionPoolOpen = [(''/S'', 0)], pipeCount = 1\<rparr>
       = Inr (\<lparr>connectionPools = [(''/S'', [1, 3])], connectionPoolOpen = [(''/S'', 0)], pipeCount = 1\<rparr>, [])"
    by (simp add: on_message_def on_connection_def Let_def)
  note c = relay_no_echo_no_buffer [OF h1, of 1 "''hello''" "[(5, ''/S'', 3)]"]
  show ?thesis
    by (rule conjI [OF h1 conjI [OF e1 conjI [OF e2 c]]])
qed

subsection \<open>Deliverable sequences\<close>

text \<open>
  Along a deliverable sequence the pool of every session holds exactly the sockets connected
  under its URL, in the order of their connection, each once; so no handler throws.
\<close>

lemma connected_append:
  "connected u (conn @ [(s, url)]) = (if u = url then connected url conn @ [s] else connected u conn)"
  by (simp add: connected_def)

lemma connected_remove1:
  "connected u (remove1 (s, url) conn)
     = (if u = url then remove1 s (connected url conn) else connected u conn)"
proof (induction conn)
  case Nil
  then show ?case by (simp add: connected_def)
next
  case (Cons p conn)
  obtain s' u' where p: "p = (s', u')" by (cases p) auto
  from Cons.IH show ?case
    by (auto simp: connected_def p)
qed

lemma connected_member: "(s, url) \<in> set conn \<Longrightarrow> s \<in> set (connected url conn)"
  by (force simp: connected_def)

lemma member_present:
  "s \<in> set (membersOf st url) \<Longrightarrow> map_of (connectionPools st) url = Some (membersOf st url)"
  by (cases "map_of (connectionPools st) url") (auto simp: membersOf_def)

lemma distinct_fst_remove1: "distinct (map fst conn) \<Longrightarrow> distinct (map fst (remove1 p conn))"
proof (induction conn)
  case Nil
  then show ?case by simp
next
  case (Cons q conn)
  have "fst ` set (remove1 p conn) \<subseteq> fst ` set conn"
    using set_remove1_subset [of p conn] by auto
  with Cons show ?case by auto
qed

lemma admit_step:
  assumes tr: "\<forall>u. membersOf st u = connected u conn"
      and di: "distinct (map fst conn)" and se: "fst ` set conn \<subseteq> set seen"
      and ad: "admit e (conn, seen) = Some (conn', seen')"
  shows "\<exists>st' out. step e st = Inr (st', out)
       \<and> (\<forall>u. membersOf st' u = connected u conn')
       \<and> distinct (map fst conn') \<and> fst ` set conn' \<subseteq> set seen'"
proof (cases e)
  case (Connection now url s)
  with ad have f: "s \<notin> set seen" and c: "conn' = conn @ [(s, url)]" and s': "seen' = s # seen"
    by (auto split: if_splits)
  from f se have "s \<notin> fst ` set conn" by auto
  with di c have "distinct (map fst conn')" by simp
  moreover from se c s' have "fst ` set conn' \<subseteq> set seen'" by auto
  moreover have "\<forall>u. membersOf (on_connection now url s st) u = connected u conn'"
    using tr by (simp add: membersOf_on_connection connected_append c)
  ultimately show ?thesis using Connection by simp
next
  case (Message url s m)
  with ad have i: "(s, url) \<in> set conn" and c: "conn' = conn" "seen' = seen"
    by (auto split: if_splits)
  from connected_member [OF i] tr have "s \<in> set (membersOf st url)" by simp
  from member_present [OF this] have "\<exists>sends. on_message url s m st = Inr sends"
    by (simp add: on_message_def)
  with Message tr di se c show ?thesis by auto
next
  case (Close url f s)
  with ad have i: "(s, url) \<in> set conn" and c: "conn' = remove1 (s, url) conn" "seen' = seen"
    by (auto split: if_splits)
  from connected_member [OF i] tr have mem: "s \<in> set (membersOf st url)" by simp
  from on_close_defined [OF member_present [OF mem]]
  obtain st' cl where oc: "on_close url f s st = Inr (st', cl)" by blast
  have "\<forall>u. membersOf st' u = connected u conn'"
    using membersOf_on_close [OF oc] splice_member [OF mem] tr
    by (simp add: c connected_remove1)
  moreover from di have "distinct (map fst conn')"
    unfolding c by (rule distinct_fst_remove1)
  moreover from se have "fst ` set conn' \<subseteq> set seen'"
    unfolding c using set_remove1_subset [of "(s, url)" conn] by auto
  ultimately show ?thesis using Close oc by simp
qed


lemma admit_run:
  "\<forall>u. membersOf st u = connected u conn \<Longrightarrow> distinct (map fst conn) \<Longrightarrow>
   fst ` set conn \<subseteq> set seen \<Longrightarrow> admit_all es (conn, seen) = Some (conn', seen') \<Longrightarrow>
     \<exists>st' out. run es st = Inr (st', out)
       \<and> (\<forall>u. membersOf st' u = connected u conn')
       \<and> distinct (map fst conn') \<and> fst ` set conn' \<subseteq> set seen'"
proof (induction es arbitrary: st conn seen)
  case Nil
  then show ?case by simp
next
  case (Cons e es)
  from Cons.prems(4) obtain conn1 seen1
    where a1: "admit e (conn, seen) = Some (conn1, seen1)"
      and a2: "admit_all es (conn1, seen1) = Some (conn', seen')"
    by (auto split: option.splits)
  from admit_step [OF Cons.prems(1-3) a1] obtain st1 o1
    where s1: "step e st = Inr (st1, o1)"
      and i1: "\<forall>u. membersOf st1 u = connected u conn1" "distinct (map fst conn1)"
              "fst ` set conn1 \<subseteq> set seen1" by blast
  from Cons.IH [OF i1 a2] obtain st' o2
    where "run es st1 = Inr (st', o2)"
      and "\<forall>u. membersOf st' u = connected u conn'" "distinct (map fst conn')"
          "fst ` set conn' \<subseteq> set seen'" by blast
  with s1 show ?case by simp
qed


lemma deliverable_run:
  assumes "admit_all es ([], []) = Some (conn, seen)"
  shows "\<exists>st out. run es createServer = Inr (st, out)
       \<and> (\<forall>u. membersOf st u = connected u conn) \<and> distinct (map fst conn)"
proof -
  have "\<forall>u. membersOf createServer u = connected u []"
    by (simp add: membersOf_def createServer_def connected_def)
  from admit_run [OF this _ _ assms] show ?thesis by auto
qed




text \<open>
  Claim C8.  For every finite sequence of joins and leaves (and messages) the transport can
  deliver, replayed from the empty registry, and for every session identifier, the replay
  does not throw and the resulting member count of the session equals the number of its
  joins minus the number of its leaves; the same holds after every prefix of the replay,
  where this difference is never negative.
\<close>

theorem deliverable_member_count:
  assumes "deliverable es"
  shows "(\<exists>st out. run es createServer = Inr (st, out)
            \<and> int (memberCount st url) = int (joins url es) - int (leaves url es))
       \<and> (\<forall>n \<le> length es. \<exists>st' out'.
             run (take n es) createServer = Inr (st', out')
           \<and> int (memberCount st' url) = int (joins url (take n es)) - int (leaves url (take n es))
           \<and> 0 \<le> int (joins url (take n es)) - int (leaves url (take n es)))"
proof -
  from assms obtain conn seen where "admit_all es ([], []) = Some (conn, seen)"
    by (auto simp: deliverable_def)
  from deliverable_run [OF this] obtain st out where r: "run es createServer = Inr (st, out)"
    by blast
  from member_count_of_run [OF r, of url] r show ?thesis by blast
qed

theorem deliverable_member_count_witness:
  "deliverable [Connection 0 ''/S'' 1, Connection 5 ''/S'' 2, Close ''/S'' False 1 :: string event]
   \<and> run [Connection 0 ''/S'' 1, Connection 5 ''/S'' 2, Close ''/S'' False 1 :: string event] createServer
       = Inr (\<lparr>connectionPools = [(''/S'', [2])], connectionPoolOpen = [(''/S'', 0)], pipeCount = 1\<rparr>, [])
   \<and> int (memberCount \<lparr>connectionPools = [(''/S'', [2])], connectionPoolOpen = [(''/S'', 0)], pipeCount = 1\<rparr> ''/S'')
       = int (joins ''/S'' [Connection 0 ''/S'' 1, Connection 5 ''/S'' 2, Close ''/S'' False 1 :: string event])
       - int (leaves ''/S'' [Connection 0 ''/S'' 1, Connection 5 ''/S'' 2, Close ''/S'' False 1 :: string event])
   \<and> memberCount \<lparr>connectionPools = [(''/S'', [2])], connectionPoolOpen = [(''/S'', 0)], pipeCount = 1\<rparr> ''/S'' = 1"
proof -
  let ?es = "[Connection 0 ''/S'' 1, Connection 5 ''/S'' 2, Close ''/S'' False 1 :: string event]"
  let ?st = "\<lparr>connectionPools = [(''/S'', [2])], connectionPoolOpen = [(''/S'', 0)], pipeCount = 1\<rparr>"
  have h: "deliverable ?es" by (simp add: deliverable_def)
  have r: "run ?es createServer = Inr (?st, [])"
    by (simp add: createServer_def on_connection_def on_close_def array_splice_def Let_def)
  from deliverable_member_count [OF h, of "''/S''"] r
  have c: "int (memberCount ?st ''/S'') = int (joins ''/S'' ?es) - int (leaves ''/S'' ?es)"
    by auto
  have m: "memberCount ?st ''/S'' = 1" by (simp add: memberCount_def membersOf_def)
  show ?thesis by (rule conjI [OF h conjI [OF r conjI [OF c m]]])
qed

text \<open>
  When no \<open>close\<close> handler runs with its flag set, no disconnect closes another socket.
\<close>

lemma no_cascade_without_flag:
  "run es st = Inr (st', out) \<Longrightarrow> (\<And>u f s. Close u f s \<in> set es \<Longrightarrow> \<not> f) \<Longrightarrow>
     CloseSocket s \<notin> set out"
proof (induction es arbitrary: st out)
  case Nil
  then show ?case by simp
next
  case (Cons e es)
  from run_Cons_Inr [OF Cons.prems(1)] obtain st1 o1 o2
    where s1: "step e st = Inr (st1, o1)" and r: "run es st1 = Inr (st', o2)"
      and out: "out = o1 @ o2" by blast
  have "\<not> f" if "Close u f s' \<in> set es" for u f s'
    using Cons.prems(2) [of u f s'] that by simp
  with Cons.IH [OF r] have "CloseSocket s \<notin> set o2" by blast
  moreover have "CloseSocket s \<notin> set o1"
  proof (cases e)
    case (Connection now u s')
    with s1 show ?thesis by auto
  next
    case (Message u s' m)
    with s1 show ?thesis by (auto split: sum.splits)
  next
    case (Close u f s')
    with Cons.prems(2) [of u f s'] have nf: "\<not> f" by simp
    from Close s1 obtain cl where oc: "on_close u f s' st = Inr (st1, cl)"
      and o1: "o1 = map CloseSocket cl" by (auto split: sum.splits)
    from on_close_Inr [OF oc] nf have "cl = []" by auto
    with o1 show ?thesis by simp
  qed
  ultimately show ?case using out by simp
qed

text \<open>
  The flag of line 137 is looked up under a name with capital letters.  Node's HTTP parser
  hands the header names over in lower case; on such a headers object the lookup finds
  nothing and the flag is false, whatever the peer sent.
\<close>

lemma isServer_of_lowercase_headers:
  assumes "\<forall>name \<in> dom headers. \<forall>c \<in> set name. c \<notin> set ''ABCDEFGHIJKLMNOPQRSTUVWXYZ''"
  shows "\<not> isServer_of headers"
proof
  assume "isServer_of headers"
  then have "''X-Rawterm-Is-Server'' \<in> dom headers" by (auto simp: isServer_of_def)
  with assms have "\<forall>c \<in> set ''X-Rawterm-Is-Server''. c \<notin> set ''ABCDEFGHIJKLMNOPQRSTUVWXYZ''"
    by blast
  then show False by simp
qed

text \<open>
  Claim C4 says that the disconnect of a member whose controller flag is set closes every
  other member of its session.  The \<open>close\<close> handler does so when its flag is set
  (\<open>close_handler_cascade\<close>), but the flag is never set: a peer that sends the header
  \<open>X-Rawterm-Is-Server: Yes\<close> reaches the handler of line 137 with the header name in
  lower case, the flag is false, and when this peer disconnects from a session with another
  member the handler calls \<open>close()\<close> on nobody and the session keeps the other member.
\<close>

theorem controller_flag_never_set:
  "\<not> isServer_of [''x-rawterm-is-server'' \<mapsto> ''Yes'']
   \<and> deliverable [Connection 0 ''/S'' 1, Connection 5 ''/S'' 2,
        Close ''/S'' (isServer_of [''x-rawterm-is-server'' \<mapsto> ''Yes'']) 1 :: string event]
   \<and> run [Connection 0 ''/S'' 1, Connection 5 ''/S'' 2,
        Close ''/S'' (isServer_of [''x-rawterm-is-server'' \<mapsto> ''Yes'']) 1 :: string event] createServer
       = Inr (\<lparr>connectionPools = [(''/S'', [2])], connectionPoolOpen = [(''/S'', 0)], pipeCount = 1\<rparr>, [])"
  by (simp add: isServer_of_def deliverable_def createServer_def on_connection_def on_close_def
      array_splice_def Let_def)

section \<open>Properties of the framer and of the generator\<close>

subsection \<open>Hexadecimal fields, base64 and buffers\<close>

lemma lt16_cases:
  "(d::nat) < 16 \<Longrightarrow> d = 0 \<or> d = 1 \<or> d = 2 \<or> d = 3 \<or> d = 4 \<or> d = 5 \<or> d = 6 \<or> d = 7
     \<or> d = 8 \<or> d = 9 \<or> d = 10 \<or> d = 11 \<or> d = 12 \<or> d = 13 \<or> d = 14 \<or> d = 15"
  by arith

lemma hex_digit_value_hex_digit:
  assumes "d < 16"
  shows "hex_digit_value (hex_digit d) = d"
  using lt16_cases [OF assms]
  by (elim disjE) (simp_all add: hex_digit_def hex_digit_value_def)

lemma hex_digit_lowercase: "d < 16 \<Longrightarrow> hex_digit d \<in> set ''0123456789abcdef''"
  unfolding hex_digit_def by (rule nth_mem) simp

lemma toString16_nonempty: "toString16 n \<noteq> []"
  by (subst toString16.simps) simp

lemma toString16_length_le: "n < 16 ^ k \<Longrightarrow> 0 < k \<Longrightarrow> length (toString16 n) \<le> k"
proof (induction n arbitrary: k rule: toString16.induct)
  case (1 n)
  show ?case
  proof (cases "n < 16")
    case True
    with "1.prems" show ?thesis by (subst toString16.simps) simp
  next
    case False
    with "1.prems" have k: "1 < k" by (cases "k = 1") auto
    then obtain j where j: "k = Suc j" and j0: "0 < j" by (cases k) auto
    from "1.prems"(1) j have "n div 16 < 16 ^ j"
      by (simp add: less_mult_imp_div_less mult.commute)
    from "1.IH" [OF False this j0] False j show ?thesis
      by (subst toString16.simps) simp
  qed
qed

lemma toString16_lowercase: "set (toString16 n) \<subseteq> set ''0123456789abcdef''"
proof (induction n rule: toString16.induct)
  case (1 n)
  show ?case
  proof (cases "n < 16")
    case True
    with hex_digit_lowercase [of n] show ?thesis by (subst toString16.simps) simp
  next
    case False
    have "n mod 16 < 16" by simp
    from hex_digit_lowercase [OF this] "1.IH" [OF False] False show ?thesis
      by (subst toString16.simps) simp
  qed
qed

lemma hex_value_snoc: "hex_value (s @ [c]) = 16 * hex_value s + hex_digit_value c"
  by (simp add: hex_value_def)

lemma hex_value_toString16: "hex_value (toString16 n) = n"
proof (induction n rule: toString16.induct)
  case (1 n)
  show ?case
  proof (cases "n < 16")
    case True
    then show ?thesis
      by (subst toString16.simps) (simp add: hex_value_def hex_digit_value_hex_digit)
  next
    case False
    have "n mod 16 < 16" by simp
    from hex_digit_value_hex_digit [OF this] "1.IH" [OF False] False show ?thesis
      by (subst toString16.simps) (simp add: hex_value_snoc)
  qed
qed

lemma hex_value_zeros: "hex_value (replicate k (CHR ''0'') @ s) = hex_value s"
proof -
  have z: "hex_digit_value (CHR ''0'') = 0" by (simp add: hex_digit_value_def)
  have "foldl (\<lambda>a c. 16 * a + hex_digit_value c) 0 (replicate k (CHR ''0'') @ s)
      = foldl (\<lambda>a c. 16 * a + hex_digit_value c) 0 s"
    by (induction k) (simp_all add: z)
  then show ?thesis by (simp add: hex_value_def)
qed

lemma hex_value_padded: "hex_value (hex_padded w n) = n"
  by (simp add: hex_padded_def hex_value_zeros hex_value_toString16)

lemma length_hex_padded: "n < 16 ^ w \<Longrightarrow> 0 < w \<Longrightarrow> length (hex_padded w n) = w"
  using toString16_length_le [of n w] by (simp add: hex_padded_def)

lemma hex_padded_lowercase: "set (hex_padded w n) \<subseteq> set ''0123456789abcdef''"
  using toString16_lowercase [of n] by (auto simp: hex_padded_def)

lemma slice_last_4:
  assumes "n < 65536"
  shows "slice_last 4 (''000'' @ toString16 n) = hex_padded 4 n"
proof -
  from toString16_length_le [of n 4] assms have "length (toString16 n) \<le> 4" by simp
  moreover from toString16_nonempty [of n] have "length (toString16 n) \<noteq> 0" by simp
  ultimately consider "length (toString16 n) = 1" | "length (toString16 n) = 2"
    | "length (toString16 n) = 3" | "length (toString16 n) = 4" by arith
  then show ?thesis
    by cases (simp_all add: slice_last_def hex_padded_def eval_nat_numeral)
qed

lemma slice_last_8:
  assumes "n < 4294967296"
  shows "slice_last 8 (''0000000'' @ toString16 n) = hex_padded 8 n"
proof -
  from toString16_length_le [of n 8] assms have "length (toString16 n) \<le> 8" by simp
  moreover from toString16_nonempty [of n] have "length (toString16 n) \<noteq> 0" by simp
  ultimately consider "length (toString16 n) = 1" | "length (toString16 n) = 2"
    | "length (toString16 n) = 3" | "length (toString16 n) = 4"
    | "length (toString16 n) = 5" | "length (toString16 n) = 6"
    | "length (toString16 n) = 7" | "length (toString16 n) = 8" by arith
  then show ?thesis
    by cases (simp_all add: slice_last_def hex_padded_def eval_nat_numeral)
qed

lemma length_base64: "length (toString_base64 bs) = 4 * ((length bs + 2) div 3)"
proof (induction bs rule: toString_base64.induct)
  case (1 a b c rest)
  have "(length rest + 5) div 3 = Suc ((length rest + 2) div 3)" by arith
  with 1 show ?case by (simp add: Let_def add.commute)
qed (simp_all add: Let_def)

lemma length_fitting: "length (concat (fitting avail chs)) \<le> avail"
proof (induction chs arbitrary: avail)
  case Nil
  then show ?case by simp
next
  case (Cons ch chs)
  from Cons.IH [of "avail - length ch"] show ?case by auto
qed

lemma length_buf_write: "offset \<le> length buf \<Longrightarrow> length (buf_write str offset buf) = length buf"
  using length_fitting [of "length buf - offset" "utf8_chars str"]
  by (simp add: buf_write_def Let_def)

lemma length_sendMessage_buf: "length (sendMessage_buf message) = 27 + length message"
  by (simp add: sendMessage_buf_def Let_def length_buf_write alloc_def fill_def)


lemma map_of_keys:
  "distinct (map fst al) \<Longrightarrow> map (map_of al) (map fst al) = map (\<lambda>p. Some (snd p)) al"
proof (induction al)
  case Nil
  then show ?case by simp
next
  case (Cons p al)
  obtain k v where p: "p = (k, v)" by (cases p) auto
  from Cons.prems p have k: "k \<notin> fst ` set al" and d: "distinct (map fst al)" by auto
  have "map (map_of (p # al)) (map fst al) = map (map_of al) (map fst al)"
    using k p by (intro map_cong) auto
  with Cons.IH [OF d] p show ?case by simp
qed

lemma concat_map_concat: "concat (map (\<lambda>xs. concat (map f xs)) xss) = concat (map f (concat xss))"
  by (induction xss) auto

lemma sendMessage_members:
  assumes "distinct (map fst (connectionPools st))"
  shows "sendMessage message st =
     concat (map (\<lambda>socket. [(socket, sendMessage_packet message), (socket, sendMessage_bpacket message)])
       (concat (map snd (connectionPools st))))"
proof -
  let ?f = "\<lambda>socket. [(socket, sendMessage_packet message), (socket, sendMessage_bpacket message)]"
  let ?g = "\<lambda>r. case r of None \<Rightarrow> [] | Some pool \<Rightarrow> concat (map ?f pool)"
  have "sendMessage message st
      = concat (map ?g (map (map_of (connectionPools st)) (map fst (connectionPools st))))"
    by (simp add: sendMessage_def comp_def)
  also have "\<dots> = concat (map ?g (map (\<lambda>p. Some (snd p)) (connectionPools st)))"
    by (simp only: map_of_keys [OF assms])
  also have "\<dots> = concat (map (\<lambda>pool. concat (map ?f pool)) (map snd (connectionPools st)))"
    by (simp add: comp_def)
  also have "\<dots> = concat (map ?f (concat (map snd (connectionPools st))))"
    by (rule concat_map_concat)
  finally show ?thesis .
qed

lemma received_in_order:
  "[e. (s', e) \<leftarrow> concat (map (\<lambda>socket. [(socket, p), (socket, b)]) members), s' = s]
     = concat (replicate (count_list members s) [p, b])"
  by (induction members) auto

lemma base64_length_bound:
  assumes "length message \<le> 49122"
  shows "length (toString_base64 (sendMessage_buf message)) < 65536"
proof -
  have "(27 + length message + 2) div 3 \<le> 16383" using assms by arith
  then show ?thesis by (simp add: length_base64 length_sendMessage_buf)
qed

lemma crc32_bound: "crc32 s < 4294967296"
proof -
  have "unat (w :: 32 word) < 2 ^ 32" for w using unsigned_less [of w] by simp
  then show ?thesis by (simp add: crc32_def)
qed

lemma sendMessage_packet_envelope:
  assumes "length message \<le> 49122"
  shows "sendMessage_packet message =
     envelope (toString_base64 (sendMessage_buf message))
       (crc32 (toString_base64 (sendMessage_buf message)))"
  unfolding sendMessage_packet_def envelope_def Let_def
    slice_last_4 [OF base64_length_bound [OF assms]] slice_last_8 [OF crc32_bound] ..

lemma sendMessage_bpacket_envelope:
  assumes "length message \<le> 49122"
  shows "sendMessage_bpacket message =
     envelope (toString_base64 (sendMessage_buf message))
       (crc32 (toString_binary (sendMessage_buf message)))"
  unfolding sendMessage_bpacket_def envelope_def Let_def
    slice_last_4 [OF base64_length_bound [OF assms]] slice_last_8 [OF crc32_bound] ..

lemma utf8_chars_ascii: "\<forall>c \<in> set s. c < 0x80 \<Longrightarrow> utf8_chars s = map (\<lambda>c. [ucast c]) s"
  by (induction s) auto

lemma fitting_singletons: "fitting avail (map (\<lambda>c. [f c]) s) = map (\<lambda>c. [f c]) (take avail s)"
proof (induction s arbitrary: avail)
  case Nil
  then show ?case by simp
next
  case (Cons c s)
  then show ?case by (cases avail) auto
qed

lemma concat_singletons: "concat (map (\<lambda>c. [f c]) s) = map f s"
  by (induction s) auto

lemma buf_write_ascii:
  assumes "\<forall>c \<in> set s. c < 0x80"
  shows "buf_write s offset buf =
     take offset buf @ map ucast (take (length buf - offset) s)
       @ drop (offset + min (length s) (length buf - offset)) buf"
  by (simp add: buf_write_def Let_def utf8_chars_ascii [OF assms] fitting_singletons
      concat_singletons)

lemma label_ascii: "\<forall>c \<in> set (literal ''Message from server''). c < 0x80"
  by (simp add: literal_def)

lemma label_bytes:
  "map ucast (literal ''Message from server'') =
     ([77, 101, 115, 115, 97, 103, 101, 32, 102, 114, 111, 109, 32, 115, 101, 114, 118, 101, 114]
        :: byte list)"
  by (simp add: literal_def)

lemma sendMessage_buf_header:
  "sendMessage_buf message =
     buf_write message 26
       ([5, 0, 0x40, 0, 0, 0, 77, 101, 115, 115, 97, 103, 101, 32, 102, 114, 111, 109, 32, 115,
         101, 114, 118, 101, 114] @ replicate (2 + length message) 0)"
proof -
  let ?n = "length message"
  have "replicate (27 + ?n) (0::byte) = replicate 6 0 @ replicate (21 + ?n) 0"
    by (simp add: replicate_add [symmetric])
  then have a: "(fill 0 (alloc (27 + ?n)))[0 := 5, 2 := 0x40]
      = [5, 0, 0x40, 0, 0, 0] @ replicate (21 + ?n) 0"
    by (simp add: alloc_def fill_def eval_nat_numeral)
  have l: "length (literal ''Message from server'') = 19" by (simp add: literal_def)
  have d: "drop 19 (replicate (21 + ?n) (0::byte)) = replicate (2 + ?n) 0" by simp
  have b: "buf_write (literal ''Message from server'') 6 ([5, 0, 0x40, 0, 0, 0] @ replicate (21 + ?n) 0)
      = [5, 0, 0x40, 0, 0, 0, 77, 101, 115, 115, 97, 103, 101, 32, 102, 114, 111, 109, 32, 115,
         101, 114, 118, 101, 114] @ replicate (2 + ?n) 0"
    unfolding buf_write_ascii [OF label_ascii]
    by (simp add: l label_bytes d)
  show ?thesis
    unfolding sendMessage_buf_def Let_def a b ..
qed


lemma byteLength_ascii: "\<forall>c \<in> set s. c < 0x80 \<Longrightarrow> byteLength s = length s"
  by (simp add: byteLength_def utf8_chars_ascii concat_singletons)

lemma sendMessage_buf_ascii:
  assumes "\<forall>c \<in> set message. c < 0x80"
  shows "sendMessage_buf message =
     [5, 0, 0x40, 0, 0, 0, 77, 101, 115, 115, 97, 103, 101, 32, 102, 114, 111, 109, 32, 115,
      101, 114, 118, 101, 114, 0] @ map ucast message @ [0]"
proof -
  let ?n = "length message"
  let ?H = "[5, 0, 0x40, 0, 0, 0, 77, 101, 115, 115, 97, 103, 101, 32, 102, 114, 111, 109, 32, 115,
         101, 114, 118, 101, 114] :: byte list"
  define R where "R = replicate (2 + ?n) (0::byte)"
  have lR: "length R = 2 + ?n" by (simp add: R_def)
  have lH: "length ?H = 25" by simp
  have len: "length (?H @ R) = 27 + ?n" using lR by simp
  have "take 26 (?H @ R) = ?H @ take 1 R" using lH by simp
  moreover have "take 1 R = [0]" by (simp add: R_def)
  ultimately have t: "take 26 (?H @ R) = ?H @ [0]" by simp
  have m: "min ?n (27 + ?n - 26) = ?n" by simp
  have "drop (26 + ?n) (?H @ R) = drop (26 + ?n) ?H @ drop (26 + ?n - length ?H) R"
    by (rule drop_append)
  also have "drop (26 + ?n) ?H = []" by simp
  also have "26 + ?n - length ?H = Suc ?n" by simp
  also have "drop (Suc ?n) R = replicate (2 + ?n - Suc ?n) 0"
    unfolding R_def by (rule drop_replicate)
  also have "2 + ?n - Suc ?n = 1" by simp
  finally have d: "drop (26 + ?n) (?H @ R) = [0]" by simp
  have k: "take (27 + ?n - 26) message = message" by simp
  have "sendMessage_buf message = buf_write message 26 (?H @ R)"
    unfolding R_def by (rule sendMessage_buf_header)
  also have "\<dots> = (?H @ [0]) @ map ucast message @ [0]"
    unfolding buf_write_ascii [OF assms] len m t d k ..
  finally show ?thesis by simp
qed

lemma buf_hi: "sendMessage_buf (literal ''hi'') =
  [5, 0, 0x40, 0, 0, 0, 77, 101, 115, 115, 97, 103, 101, 32, 102, 114, 111, 109, 32, 115, 101,
   114, 118, 101, 114, 0, 104, 105, 0]"
proof -
  have "\<forall>c \<in> set (literal ''hi''). c < 0x80" by (simp add: literal_def)
  from sendMessage_buf_ascii [OF this] show ?thesis by (simp add: literal_def)
qed

lemma buf_ee: "sendMessage_buf [0xE9, 0xE9] =
  [5, 0, 0x40, 0, 0, 0, 77, 101, 115, 115, 97, 103, 101, 32, 102, 114, 111, 109, 32, 115, 101,
   114, 118, 101, 114, 0, 0xC3, 0xA9, 0]"
  unfolding sendMessage_buf_header
  by (simp add: buf_write_def Let_def)

subsection \<open>The identifier generator\<close>

lemma fold_update_upt:
  "n \<le> length buf \<Longrightarrow> fold (\<lambda>i b. b[i := f i]) [0..<n] buf = map f [0..<n] @ drop n buf"
proof (induction n)
  case 0
  then show ?case by simp
next
  case (Suc n)
  then have n: "n < length buf" by simp
  then have "drop n buf = buf ! n # drop (Suc n) buf" by (simp add: Cons_nth_drop_Suc)
  then have "(map f [0..<n] @ drop n buf)[n := f n] = map f [0..<n] @ f n # drop (Suc n) buf"
    by (simp add: list_update_append)
  with Suc.IH n show ?case by simp
qed

lemma makeID_buf_map:
  "makeID_buf random = map (\<lambda>i. store_floor (times255 (random i))) [0..<30]"
  using fold_update_upt [of 30 "alloc 30" "\<lambda>i. store_floor (times255 (random i))"]
  by (simp add: makeID_buf_def alloc_def)

lemma length_makeID_buf: "length (makeID_buf random) = 30"
  by (simp add: makeID_buf_map)

lemma base64_char_alphabet:
  "i < 64 \<Longrightarrow>
     base64_char i \<in> set ''ABCDEFGHIJKLMNOPQRSTUVWXYZabcdefghijklmnopqrstuvwxyz0123456789+/''"
  unfolding base64_char_def by (rule nth_mem) simp

lemma unat_byte: "unat (b :: byte) < 256"
  using unsigned_less [of b] by simp

lemma base64_unpadded:
  assumes A: "\<And>i. i < 64 \<Longrightarrow> base64_char i \<in> A"
  shows "length bs mod 3 = 0 \<Longrightarrow> set (toString_base64 bs) \<subseteq> A"
proof (induction bs rule: toString_base64.induct)
  case (1 a b c rest)
  let ?n = "unat a * 65536 + unat b * 256 + unat c"
  have "?n < 16777216" using unat_byte [of a] unat_byte [of b] unat_byte [of c] by arith
  then have "?n div 262144 < 64" by arith
  moreover have "?n div 4096 mod 64 < 64" "?n div 64 mod 64 < 64" "?n mod 64 < 64" by simp_all
  moreover from "1.prems" have "length rest mod 3 = 0" by (simp add: mod_Suc split: if_splits)
  ultimately show ?case
    using "1.IH" by (simp add: Let_def A)
qed simp_all

lemma base64_no_padding:
  assumes "length bs mod 3 = 0"
  shows "CHR ''='' \<notin> set (toString_base64 bs)"
proof -
  have "base64_char i \<in> UNIV - {CHR ''=''}" if "i < 64" for i
    using base64_char_alphabet [OF that] by auto
  from base64_unpadded [of "UNIV - {CHR ''=''}", OF this assms] show ?thesis by auto
qed

lemma replace_all_absent: "c \<noteq> d \<Longrightarrow> c \<notin> set (replace_all c d s)"
  by (auto simp: replace_all_def)

lemma replace_all_keeps_absent: "x \<notin> set s \<Longrightarrow> x \<noteq> d \<Longrightarrow> x \<notin> set (replace_all c d s)"
  by (auto simp: replace_all_def)

lemma length_replace_all: "length (replace_all c d s) = length s"
  by (simp add: replace_all_def)

lemma length_makeID: "length (makeID random) = 40"
  by (simp add: makeID_def length_replace_all length_base64 length_makeID_buf)

text \<open>
  Claim C9.  Whatever the random draws, the token returned by \<open>makeID\<close> is the base64
  text of the 30 bytes of the buffer in which every \<open>/\<close> is replaced by \<open>_\<close> and every
  \<open>+\<close> by \<open>-\<close>; so no token holds the character \<open>/\<close> or the character \<open>+\<close>.
\<close>

theorem makeID_url_safe:
  "length (makeID_buf random) = 30
   \<and> length (makeID random) = length (toString_base64 (makeID_buf random))
   \<and> (\<forall>i < length (makeID random).
         makeID random ! i =
           (if toString_base64 (makeID_buf random) ! i = CHR ''/'' then CHR ''_''
            else if toString_base64 (makeID_buf random) ! i = CHR ''+'' then CHR ''-''
            else toString_base64 (makeID_buf random) ! i))
   \<and> CHR ''/'' \<notin> set (makeID random) \<and> CHR ''+'' \<notin> set (makeID random)"
proof -
  have a: "CHR ''/'' \<notin> set (makeID random)"
    unfolding makeID_def
    by (rule replace_all_keeps_absent [OF replace_all_absent]) simp_all
  have b: "CHR ''+'' \<notin> set (makeID random)"
    unfolding makeID_def by (rule replace_all_absent) simp
  have c: "\<forall>i < length (makeID random).
         makeID random ! i =
           (if toString_base64 (makeID_buf random) ! i = CHR ''/'' then CHR ''_''
            else if toString_base64 (makeID_buf random) ! i = CHR ''+'' then CHR ''-''
            else toString_base64 (makeID_buf random) ! i)"
    by (simp add: makeID_def replace_all_def)
  have d: "length (makeID random) = length (toString_base64 (makeID_buf random))"
    by (simp add: makeID_def length_replace_all)
  from a b c d length_makeID_buf show ?thesis by blast
qed

lemma unat_word_of_int_byte:
  assumes "0 \<le> k" "k \<le> 254"
  shows "unat (word_of_int k :: byte) = nat k"
proof -
  have "uint (word_of_int k :: byte) = k mod 256" by (simp add: uint_word_of_int)
  with assms have "uint (word_of_int k :: byte) = k" by simp
  then show ?thesis by (simp add: unat_eq_nat_uint)
qed

text \<open>
  The rounded product: it is within half a unit of the last place of the exact product, and
  for a draw below 1 it stays below 255.  (At the draw \<open>282578800148737 / 2 ^ 49\<close> the
  exact product \<open>128 - 2 ^ - 49\<close> rounds up to 128, see \<open>times255_examples\<close>.)
\<close>

lemma bit_length_bound: "n < 2 ^ bit_length n"
proof (induction n rule: bit_length.induct)
  case (1 n)
  show ?case
  proof (cases "n = 0")
    case True
    then show ?thesis by (subst bit_length.simps) simp
  next
    case False
    from "1.IH" [OF False] have "n div 2 < 2 ^ bit_length (n div 2)" .
    then have "n < 2 * 2 ^ bit_length (n div 2)" by arith
    with False show ?thesis by (subst bit_length.simps) simp
  qed
qed

lemma bit_length_le: "n < 2 ^ j \<Longrightarrow> bit_length n \<le> j"
proof (induction n arbitrary: j rule: bit_length.induct)
  case (1 n)
  show ?case
  proof (cases "n = 0")
    case True
    then show ?thesis by (subst bit_length.simps) simp
  next
    case False
    with "1.prems" obtain i where j: "j = Suc i" by (cases j) auto
    with "1.prems" have "n div 2 < 2 ^ i" by auto
    from "1.IH" [OF False this] False j show ?thesis by (subst bit_length.simps) simp
  qed
qed

lemma round53_exponent: "exponent (round53 m e) = e + int (bit_length m - 53)"
  by (simp add: round53_def Let_def)

lemma round53_upper:
  "2 * (mantissa (round53 m e) * 2 ^ (bit_length m - 53)) \<le> 2 * m + 2 ^ (bit_length m - 53)"
proof -
  define k where "k = bit_length m - 53"
  define q where "q = m div 2 ^ k"
  define r where "r = m mod 2 ^ k"
  have m: "m = q * 2 ^ k + r" unfolding q_def r_def by (rule div_mult_mod_eq [symmetric])
  show ?thesis
  proof (cases "2 ^ k < 2 * r \<or> (2 * r = 2 ^ k \<and> odd q)")
    case True
    then have "mantissa (round53 m e) = q + 1"
      by (simp add: round53_def Let_def k_def q_def r_def)
    moreover from True have "2 ^ k \<le> 2 * r" by auto
    ultimately show ?thesis unfolding k_def [symmetric] using m by (simp add: algebra_simps)
  next
    case False
    then have "mantissa (round53 m e) = q"
      by (simp add: round53_def Let_def k_def q_def r_def)
    then show ?thesis unfolding k_def [symmetric] using m by (simp add: algebra_simps)
  qed
qed

lemma round53_lower:
  "2 * m \<le> 2 * (mantissa (round53 m e) * 2 ^ (bit_length m - 53)) + 2 ^ (bit_length m - 53)"
proof -
  define k where "k = bit_length m - 53"
  define q where "q = m div 2 ^ k"
  define r where "r = m mod 2 ^ k"
  have m: "m = q * 2 ^ k + r" unfolding q_def r_def by (rule div_mult_mod_eq [symmetric])
  have rk: "r < 2 ^ k" by (simp add: r_def)
  show ?thesis
  proof (cases "2 ^ k < 2 * r \<or> (2 * r = 2 ^ k \<and> odd q)")
    case True
    then have "mantissa (round53 m e) = q + 1"
      by (simp add: round53_def Let_def k_def q_def r_def)
    then show ?thesis unfolding k_def [symmetric] using m rk by (simp add: algebra_simps)
  next
    case False
    then have "mantissa (round53 m e) = q"
      by (simp add: round53_def Let_def k_def q_def r_def)
    moreover from False have "2 * r \<le> 2 ^ k" by auto
    ultimately show ?thesis unfolding k_def [symmetric] using m by (simp add: algebra_simps)
  qed
qed

lemma round53_mantissa_le: "mantissa (round53 m e) \<le> 2 ^ 53"
proof -
  define k where "k = bit_length m - 53"
  have "m < 2 ^ bit_length m" by (rule bit_length_bound)
  also have "(2::nat) ^ bit_length m \<le> 2 ^ (53 + k)"
    by (rule power_increasing) (simp_all add: k_def)
  finally have "m < 2 ^ 53 * 2 ^ k" by (simp add: power_add)
  then have "m div 2 ^ k < 2 ^ 53" by (rule less_mult_imp_div_less)
  then show ?thesis by (simp add: round53_def Let_def k_def)
qed


lemma double_value_powr: "double_value d = real (mantissa d) * 2 powr real_of_int (exponent d)"
proof (cases "0 \<le> exponent d")
  case True
  then have "(2::real) powr real_of_int (exponent d) = 2 ^ nat (exponent d)"
    using powr_realpow [of "2::real" "nat (exponent d)"] by simp
  with True show ?thesis by (simp add: double_value_def)
next
  case False
  then have "(2::real) powr real_of_int (exponent d) = 1 / 2 ^ nat (- exponent d)"
    using powr_realpow [of "2::real" "nat (- exponent d)"] powr_minus_divide [of "2::real" "real_of_int (- exponent d)"]
    by simp
  with False show ?thesis by (simp add: double_value_def)
qed

lemma round53_nearest:
  "2 * \<bar>double_value (round53 m e) - real m * 2 powr real_of_int e\<bar>
     \<le> 2 powr real_of_int (exponent (round53 m e))"
proof -
  define k where "k = bit_length m - 53"
  define q where "q = mantissa (round53 m e)"
  have up: "2 * (q * 2 ^ k) \<le> 2 * m + 2 ^ k"
    unfolding q_def k_def by (rule round53_upper)
  have lo: "2 * m \<le> 2 * (q * 2 ^ k) + 2 ^ k"
    unfolding q_def k_def by (rule round53_lower)
  from up have "2 * (real q * 2 ^ k) \<le> 2 * real m + 2 ^ k"
    by (metis (mono_tags, opaque_lifting) of_nat_add of_nat_le_iff of_nat_mult of_nat_numeral of_nat_power)
  moreover from lo have "2 * real m \<le> 2 * (real q * 2 ^ k) + 2 ^ k"
    by (metis (mono_tags, opaque_lifting) of_nat_add of_nat_le_iff of_nat_mult of_nat_numeral of_nat_power)
  ultimately have a: "2 * \<bar>real q * 2 ^ k - real m\<bar> \<le> 2 ^ k"
    by (cases "real q * 2 ^ k - real m < 0") (simp_all add: abs_if)
  have ex: "exponent (round53 m e) = e + int k" by (simp add: round53_exponent k_def)
  have p: "(2::real) powr (real_of_int e + real k) = 2 powr real_of_int e * 2 ^ k"
    using powr_realpow [of "2::real" k] by (simp add: powr_add)
  have "double_value (round53 m e) - real m * 2 powr real_of_int e
      = 2 powr real_of_int e * (real q * 2 ^ k - real m)"
    by (simp add: double_value_powr ex p q_def algebra_simps)
  then have "2 * \<bar>double_value (round53 m e) - real m * 2 powr real_of_int e\<bar>
      = 2 powr real_of_int e * (2 * \<bar>real q * 2 ^ k - real m\<bar>)"
    by (simp add: abs_mult)
  also have "\<dots> \<le> 2 powr real_of_int e * 2 ^ k"
    using a by (intro mult_left_mono) simp_all
  finally show ?thesis by (simp add: ex p)
qed

lemma times255_nearest:
  assumes "times255 d = Some p"
  shows "2 * \<bar>double_value p - double_value d * 255\<bar> \<le> 2 powr real_of_int (exponent p)"
proof -
  from assms have p: "p = round53 (mantissa d * 255) (exponent d)"
    by (simp add: times255_def Let_def split: if_splits)
  have h: "real (mantissa d * 255) * 2 powr real_of_int (exponent d) = double_value d * 255"
    by (simp add: double_value_powr)
  show ?thesis
    unfolding p by (rule round53_nearest [of "mantissa d * 255" "exponent d", unfolded h])
qed

lemma double_below_one:
  assumes "double_value d < 1"
  shows "mantissa d = 0 \<or> (exponent d < 0 \<and> mantissa d < 2 ^ nat (- exponent d))"
proof (cases "0 \<le> exponent d")
  case True
  have "mantissa d = 0"
  proof (rule ccontr)
    assume "mantissa d \<noteq> 0"
    then have "1 \<le> real (mantissa d)" by simp
    moreover have "(1::real) \<le> 2 ^ nat (exponent d)" by simp
    ultimately have "1 * 1 \<le> real (mantissa d) * 2 ^ nat (exponent d)"
      by (intro mult_mono) simp_all
    with assms True show False by (simp add: double_value_def)
  qed
  then show ?thesis by simp
next
  case False
  with assms have "real (mantissa d) / 2 ^ nat (- exponent d) < 1"
    by (simp add: double_value_def)
  then have "real (mantissa d) < 2 ^ nat (- exponent d)" by simp
  then have "real (mantissa d) < real (2 ^ nat (- exponent d))" by simp
  then have "mantissa d < 2 ^ nat (- exponent d)" by (simp only: of_nat_less_iff)
  with False show ?thesis by simp
qed


lemma times255_below_255:
  assumes d: "is_double d" and v: "double_value d < 1"
  shows "times255 d = Some (round53 (mantissa d * 255) (exponent d))
       \<and> 0 \<le> double_floor (round53 (mantissa d * 255) (exponent d))
       \<and> double_floor (round53 (mantissa d * 255) (exponent d)) \<le> 254"
proof -
  define M where "M = mantissa d * 255"
  define e where "e = exponent d"
  define k where "k = bit_length M - 53"
  define q where "q = mantissa (round53 M e)"
  have ex: "exponent (round53 M e) = e + int k" by (simp add: round53_exponent k_def)
  from d have m53: "mantissa d < 2 ^ 53" and e_hi: "e \<le> 971"
    by (simp_all add: is_double_def e_def)
  then have "M < 2 ^ 61" by (simp add: M_def)
  then have "bit_length M \<le> 61" by (rule bit_length_le)
  then have k8: "k \<le> 8" by (simp add: k_def)
  have q53: "q \<le> 2 ^ 53" unfolding q_def by (rule round53_mantissa_le)
  then have "q < 2 ^ 54" by simp
  then have bq: "bit_length q \<le> 54" by (rule bit_length_le)
  have up: "2 * (q * 2 ^ k) \<le> 2 * M + 2 ^ k"
    unfolding q_def k_def by (rule round53_upper)
  have nonneg: "0 \<le> double_floor (round53 M e)"
    by (simp add: double_floor_def pos_imp_zdiv_nonneg_iff)
  have fin: "\<not> int (bit_length q) + (e + int k) > 1024"
  proof (cases "mantissa d = 0")
    case True
    then have "M = 0" by (simp add: M_def)
    then have "round53 M e = \<lparr>mantissa = 0, exponent = e\<rparr>" and "k = 0"
      by (simp_all add: round53_def Let_def bit_length.simps k_def)
    then show ?thesis using e_hi by (simp add: q_def bit_length.simps)
  next
    case False
    with double_below_one [OF v] have "e < 0" by (simp add: e_def)
    with bq k8 show ?thesis by linarith
  qed
  have le: "double_floor (round53 M e) \<le> 254"
  proof (cases "mantissa d = 0")
    case True
    then have "M = 0" by (simp add: M_def)
    then have "round53 M e = \<lparr>mantissa = 0, exponent = e\<rparr>"
      by (simp add: round53_def Let_def bit_length.simps)
    then show ?thesis by (simp add: double_floor_def)
  next
    case False
    with double_below_one [OF v] have e_neg: "e < 0" and mj: "mantissa d < 2 ^ nat (- e)"
      by (simp_all add: e_def)
    define j where "j = nat (- e)"
    from e_neg have ej: "e = - int j" by (simp add: j_def)
    from mj have "Suc (mantissa d) \<le> 2 ^ j" by (simp add: j_def)
    then have "Suc (mantissa d) * 255 \<le> 2 ^ j * 255" by (rule mult_le_mono1)
    then have Mj: "M + 255 \<le> 255 * 2 ^ j" by (simp add: M_def)
    have "(2::nat) ^ k \<le> 2 ^ 8" using k8 by (intro power_increasing) simp_all
    with up Mj have lt: "q * 2 ^ k < 255 * 2 ^ j" by simp
    show ?thesis
    proof (cases "j \<le> k")
      case True
      then obtain i where i: "k = i + j" by (metis le_add_diff_inverse2)
      with lt have "q * 2 ^ i * 2 ^ j < 255 * 2 ^ j" by (simp add: power_add mult.assoc)
      then have "q * 2 ^ i < 255" by simp
      then have l: "int (q * 2 ^ i) \<le> 254" by linarith
      have f: "double_floor (round53 M e) = int (q * 2 ^ i)"
        using ex i ej by (simp add: double_floor_def q_def)
      show ?thesis unfolding f by (rule l)
    next
      case False
      then obtain i where i: "j = i + k" and i0: "0 < i"
        by (metis add.commute less_imp_add_positive not_le)
      with lt have "q * 2 ^ k < 255 * 2 ^ i * 2 ^ k" by (simp add: power_add mult.assoc)
      then have "q < 255 * 2 ^ i" by simp
      then have "q div 2 ^ i < 255"
        by (simp add: less_mult_imp_div_less)
      then have l: "int (q div 2 ^ i) \<le> 254" by linarith
      have f: "double_floor (round53 M e) = int (q div 2 ^ i)"
        using ex i i0 ej by (simp add: double_floor_def q_def zdiv_int)
      show ?thesis unfolding f by (rule l)
    qed
  qed
  from fin have "\<not> int (bit_length (mantissa (round53 M e))) + exponent (round53 M e) > 1024"
    unfolding q_def ex .
  then have "times255 d = Some (round53 M e)"
    unfolding times255_def Let_def M_def e_def by simp
  with nonneg le show ?thesis by (simp add: M_def e_def)
qed


lemma double_floor_floor: "double_floor p = \<lfloor>double_value p\<rfloor>"
proof (cases "0 \<le> exponent p")
  case True
  have "\<lfloor>real (mantissa p * 2 ^ nat (exponent p))\<rfloor> = int (mantissa p * 2 ^ nat (exponent p))"
    by (rule floor_of_nat)
  with True show ?thesis by (simp add: double_floor_def double_value_def)
next
  case False
  have "\<lfloor>real (mantissa p) / real (2 ^ nat (- exponent p))\<rfloor>
      = int (mantissa p div 2 ^ nat (- exponent p))"
    by (rule floor_divide_of_nat_eq)
  with False show ?thesis by (simp add: double_floor_def double_value_def zdiv_int)
qed

text \<open>
  Claim C10.  When every draw \<open>r\<close> is a double with \<open>0 \<le> r < 1\<close> (a double is not
  negative here by its type), the product \<open>r * 255\<close> is finite, and each of the 30 bytes
  equals the floor of that product, the exact product rounded to the nearest double; it
  lies between 0 and 254, so the byte 255 is never produced.  The token has exactly 40
  characters and holds no \<open>=\<close>.
\<close>

theorem makeID_bytes_below_255:
  assumes "\<forall>i < 30. is_double (random i) \<and> double_value (random i) < 1"
  shows "(\<forall>i < 30. \<exists>p. times255 (random i) = Some p
               \<and> 2 * \<bar>double_value p - double_value (random i) * 255\<bar>
                   \<le> 2 powr real_of_int (exponent p)
               \<and> int (unat (makeID_buf random ! i)) = \<lfloor>double_value p\<rfloor>
               \<and> unat (makeID_buf random ! i) \<le> 254
               \<and> makeID_buf random ! i \<noteq> 255)
       \<and> length (makeID_buf random) = 30
       \<and> length (makeID random) = 40
       \<and> CHR ''='' \<notin> set (makeID random)"
proof -
  have a: "\<exists>p. times255 (random i) = Some p
               \<and> 2 * \<bar>double_value p - double_value (random i) * 255\<bar>
                   \<le> 2 powr real_of_int (exponent p)
               \<and> int (unat (makeID_buf random ! i)) = \<lfloor>double_value p\<rfloor>
               \<and> unat (makeID_buf random ! i) \<le> 254
               \<and> makeID_buf random ! i \<noteq> 255" if "i < 30" for i
  proof -
    define p where "p = round53 (mantissa (random i) * 255) (exponent (random i))"
    from assms that have r: "is_double (random i)" "double_value (random i) < 1" by auto
    from times255_below_255 [OF r]
    have t: "times255 (random i) = Some p" and f: "0 \<le> double_floor p" "double_floor p \<le> 254"
      by (simp_all add: p_def)
    from that t have "makeID_buf random ! i = word_of_int (double_floor p)"
      by (simp add: makeID_buf_map store_floor_def)
    with unat_word_of_int_byte [OF f]
    have u: "unat (makeID_buf random ! i) = nat (double_floor p)" by simp
    with f have le: "unat (makeID_buf random ! i) \<le> 254" by (simp add: nat_le_iff)
    then have ne: "makeID_buf random ! i \<noteq> 255" by auto
    from u f have "int (unat (makeID_buf random ! i)) = \<lfloor>double_value p\<rfloor>"
      by (simp add: double_floor_floor)
    with t times255_nearest [OF t] le ne show ?thesis by blast
  qed
  have "CHR ''='' \<notin> set (toString_base64 (makeID_buf random))"
    by (rule base64_no_padding) (simp add: length_makeID_buf)
  then have e: "CHR ''='' \<notin> set (makeID random)"
    unfolding makeID_def by (intro replace_all_keeps_absent) simp_all
  from a e length_makeID length_makeID_buf show ?thesis by blast
qed

lemma times255_examples:
  "times255 \<lparr>mantissa = 63, exponent = - 6\<rparr> = Some \<lparr>mantissa = 16065, exponent = - 6\<rparr>"
  "times255 \<lparr>mantissa = 282578800148737, exponent = - 49\<rparr>
     = Some \<lparr>mantissa = 9007199254740992, exponent = - 46\<rparr>"
  by (simp_all add: times255_def round53_def Let_def bit_length.simps)

lemma makeID_buf_constant:
  "makeID_buf (\<lambda>i. \<lparr>mantissa = 63, exponent = - 6\<rparr>) = replicate 30 251"
proof -
  have "store_floor (times255 \<lparr>mantissa = 63, exponent = - 6\<rparr>) = 251"
    unfolding times255_examples by (simp add: store_floor_def double_floor_def)
  then have "makeID_buf (\<lambda>i. \<lparr>mantissa = 63, exponent = - 6\<rparr>) = map (\<lambda>i. 251) [0..<30]"
    by (simp add: makeID_buf_map)
  then show ?thesis by (simp add: map_replicate_const)
qed

lemma base64_constant:
  "toString_base64 (makeID_buf (\<lambda>i. \<lparr>mantissa = 63, exponent = - 6\<rparr>))
     = ''+/v7+/v7+/v7+/v7+/v7+/v7+/v7+/v7+/v7+/v7''"
proof -
  have "replicate 30 (251 :: byte) =
      [251, 251, 251, 251, 251, 251, 251, 251, 251, 251, 251, 251, 251, 251, 251,
       251, 251, 251, 251, 251, 251, 251, 251, 251, 251, 251, 251, 251, 251, 251]"
    by (simp add: eval_nat_numeral)
  then show ?thesis
    unfolding makeID_buf_constant by (simp add: base64_char_def Let_def)
qed

lemma makeID_constant:
  "makeID (\<lambda>i. \<lparr>mantissa = 63, exponent = - 6\<rparr>) = ''-_v7-_v7-_v7-_v7-_v7-_v7-_v7-_v7-_v7-_v7''"
  unfolding makeID_def base64_constant by (simp add: replace_all_def)

theorem makeID_url_safe_witness:
  "toString_base64 (makeID_buf (\<lambda>i. \<lparr>mantissa = 63, exponent = - 6\<rparr>))
     = ''+/v7+/v7+/v7+/v7+/v7+/v7+/v7+/v7+/v7+/v7''
   \<and> makeID (\<lambda>i. \<lparr>mantissa = 63, exponent = - 6\<rparr>) = ''-_v7-_v7-_v7-_v7-_v7-_v7-_v7-_v7-_v7-_v7''
   \<and> length (makeID_buf (\<lambda>i. \<lparr>mantissa = 63, exponent = - 6\<rparr>)) = 30
   \<and> CHR ''/'' \<notin> set (makeID (\<lambda>i. \<lparr>mantissa = 63, exponent = - 6\<rparr>))
   \<and> CHR ''+'' \<notin> set (makeID (\<lambda>i. \<lparr>mantissa = 63, exponent = - 6\<rparr>))"
proof -
  from makeID_url_safe [of "\<lambda>i. \<lparr>mantissa = 63, exponent = - 6\<rparr>"]
  have "length (makeID_buf (\<lambda>i. \<lparr>mantissa = 63, exponent = - 6\<rparr>)) = 30
      \<and> CHR ''/'' \<notin> set (makeID (\<lambda>i. \<lparr>mantissa = 63, exponent = - 6\<rparr>))
      \<and> CHR ''+'' \<notin> set (makeID (\<lambda>i. \<lparr>mantissa = 63, exponent = - 6\<rparr>))" by blast
  with base64_constant makeID_constant show ?thesis by (intro conjI) blast+
qed

theorem makeID_bytes_below_255_witness:
  "is_double \<lparr>mantissa = 282578800148737, exponent = - 49\<rparr>
   \<and> double_value \<lparr>mantissa = 282578800148737, exponent = - 49\<rparr> < 1
   \<and> times255 \<lparr>mantissa = 282578800148737, exponent = - 49\<rparr>
        = Some \<lparr>mantissa = 9007199254740992, exponent = - 46\<rparr>
   \<and> makeID_buf (\<lambda>i. \<lparr>mantissa = 282578800148737, exponent = - 49\<rparr>) ! 7 = 128
   \<and> unat (makeID_buf (\<lambda>i. \<lparr>mantissa = 282578800148737, exponent = - 49\<rparr>) ! 7) \<le> 254
   \<and> makeID_buf (\<lambda>i. \<lparr>mantissa = 282578800148737, exponent = - 49\<rparr>) ! 7 \<noteq> 255
   \<and> length (makeID (\<lambda>i. \<lparr>mantissa = 282578800148737, exponent = - 49\<rparr>)) = 40
   \<and> CHR ''='' \<notin> set (makeID (\<lambda>i. \<lparr>mantissa = 282578800148737, exponent = - 49\<rparr>))"
proof -
  let ?r = "\<lparr>mantissa = 282578800148737, exponent = - 49\<rparr>"
  have h1: "is_double ?r" by (simp add: is_double_def)
  have h2: "double_value ?r < 1" by (simp add: double_value_def)
  from h1 h2 have h: "\<forall>i < 30. is_double ?r \<and> double_value ?r < 1" by simp
  have v: "makeID_buf (\<lambda>i. ?r) ! 7 = 128"
    by (simp add: makeID_buf_map times255_examples store_floor_def double_floor_def)
  from makeID_bytes_below_255 [OF h]
  have "unat (makeID_buf (\<lambda>i. ?r) ! 7) \<le> 254 \<and> makeID_buf (\<lambda>i. ?r) ! 7 \<noteq> 255
      \<and> length (makeID (\<lambda>i. ?r)) = 40 \<and> CHR ''='' \<notin> set (makeID (\<lambda>i. ?r))"
    by (auto dest!: spec [of _ 7])
  with h1 h2 v times255_examples(2) show ?thesis by (intro conjI) blast+
qed

subsection \<open>The broadcast framer\<close>

text \<open>The table-driven \<open>crc32\<close> yields the check value of the standard CRC-32.\<close>

lemma funpow8: "(f ^^ 8) x = f (f (f (f (f (f (f (f x)))))))"
  by (simp add: eval_nat_numeral)

lemma makeCRCTable_nth: "n < 256 \<Longrightarrow> makeCRCTable ! n = (crc_shift ^^ 8) (word_of_nat n)"
  by (simp add: makeCRCTable_def)

lemma crc32_positive:
  "crc32 str =
     unat (fold (\<lambda>ch crc. drop_bit 8 crc XOR makeCRCTable ! unat ((crc XOR of_char ch) AND 0xFF))
             str 0xFFFFFFFF
           XOR 0xFFFFFFFF)"
proof -
  have m: "(- 1 :: 32 word) = 0xFFFFFFFF" by simp
  show ?thesis unfolding crc32_def m by simp
qed

lemma crc32_check_value: "crc32 ''123456789'' = 0xCBF43926"
  by (simp add: crc32_positive makeCRCTable_nth crc_shift_def funpow8)

lemma toString_binary_codes: "map of_char (toString_binary buf) = map unat buf"
proof -
  have "of_char (char_of (unat b)) = unat b" for b :: byte
    using unat_byte [of b] by simp
  then show ?thesis by (simp add: toString_binary_def)
qed

text \<open>
  Claim C2, as amended.  For every text of at most 49122 code units (the base64 payload is
  then shorter than 65536 characters), and a registry whose keys are pairwise different
  (as the keys of an object are), \<open>sendMessage\<close> builds two packets, each \<open>!CPC\<close>, the
  length of the base64 payload in lowercase hexadecimal padded with zeros to exactly 4
  digits, the payload, a CRC-32 in lowercase hexadecimal padded to exactly 8 digits, and a
  newline; the length field reads back as the exact length of the payload; the CRC-32 of the
  first packet is taken over the base64 text and that of the second over the buffer read as
  one character per byte; and both packets are sent, in that order, to every member of every
  session, and to nobody when the registry is empty.
\<close>

theorem broadcast_envelopes:
  assumes len: "length message \<le> 49122"
      and keys: "distinct (map fst (connectionPools st))"
  shows "sendMessage_packet message =
           envelope (toString_base64 (sendMessage_buf message))
             (crc32 (toString_base64 (sendMessage_buf message)))
       \<and> sendMessage_bpacket message =
           envelope (toString_base64 (sendMessage_buf message))
             (crc32 (toString_binary (sendMessage_buf message)))
       \<and> map of_char (toString_binary (sendMessage_buf message)) = map unat (sendMessage_buf message)
       \<and> length (hex_padded 4 (length (toString_base64 (sendMessage_buf message)))) = 4
       \<and> hex_value (hex_padded 4 (length (toString_base64 (sendMessage_buf message))))
           = length (toString_base64 (sendMessage_buf message))
       \<and> set (hex_padded 4 (length (toString_base64 (sendMessage_buf message))))
           \<subseteq> set ''0123456789abcdef''
       \<and> (\<forall>s. length (hex_padded 8 (crc32 s)) = 8 \<and> hex_value (hex_padded 8 (crc32 s)) = crc32 s
              \<and> set (hex_padded 8 (crc32 s)) \<subseteq> set ''0123456789abcdef'')
       \<and> sendMessage message st =
           concat (map (\<lambda>socket. [(socket, sendMessage_packet message),
                                    (socket, sendMessage_bpacket message)])
             (concat (map snd (connectionPools st))))
       \<and> (\<forall>s. [e. (s', e) \<leftarrow> sendMessage message st, s' = s] =
              concat (replicate (count_list (concat (map snd (connectionPools st))) s)
                [sendMessage_packet message, sendMessage_bpacket message]))
       \<and> (connectionPools st = [] \<longrightarrow> sendMessage message st = [])"
proof -
  note b = base64_length_bound [OF len]
  have l4: "length (hex_padded 4 (length (toString_base64 (sendMessage_buf message)))) = 4"
    using length_hex_padded [of _ 4] b by simp
  have l8: "length (hex_padded 8 (crc32 s)) = 8" for s
    using length_hex_padded [of "crc32 s" 8] crc32_bound [of s] by simp
  have d: "sendMessage message st =
           concat (map (\<lambda>socket. [(socket, sendMessage_packet message),
                                    (socket, sendMessage_bpacket message)])
             (concat (map snd (connectionPools st))))"
    using keys by (rule sendMessage_members)
  have o: "[e. (s', e) \<leftarrow> sendMessage message st, s' = s] =
              concat (replicate (count_list (concat (map snd (connectionPools st))) s)
                [sendMessage_packet message, sendMessage_bpacket message])" for s
    unfolding d by (rule received_in_order)
  have e: "connectionPools st = [] \<longrightarrow> sendMessage message st = []"
    by (simp add: sendMessage_def)
  show ?thesis
    using sendMessage_packet_envelope [OF len] sendMessage_bpacket_envelope [OF len]
      toString_binary_codes l4 l8 hex_value_padded hex_padded_lowercase d o e
    by (intro conjI allI) blast+
qed


lemma base64_hi:
  "toString_base64 (sendMessage_buf (literal ''hi'')) = ''BQBAAAAATWVzc2FnZSBmcm9tIHNlcnZlcgBoaQA=''"
  unfolding buf_hi by (simp add: base64_char_def Let_def)

lemma crc32_base64_hi: "crc32 ''BQBAAAAATWVzc2FnZSBmcm9tIHNlcnZlcgBoaQA='' = 0x9c2e4585"
  by (simp add: crc32_positive makeCRCTable_nth crc_shift_def funpow8)

lemma of_char_binary: "(of_char (char_of (unat b)) :: 32 word) = ucast b" for b :: byte
proof -
  have n: "(of_char (char_of (unat b)) :: nat) = unat b"
    using unat_byte [of b] by simp
  have "(of_char (char_of (unat b)) :: 32 word) = of_nat (of_char (char_of (unat b)) :: nat)"
    by (simp only: of_nat_of_char)
  also have "\<dots> = of_nat (unat b)" by (simp only: n)
  also have "\<dots> = ucast b" by simp
  finally show ?thesis .
qed

lemma crc32_binary:
  "crc32 (toString_binary buf) =
     unat (fold (\<lambda>b crc. drop_bit 8 crc XOR makeCRCTable ! unat ((crc XOR ucast b) AND 0xFF))
             buf 0xFFFFFFFF
           XOR 0xFFFFFFFF)"
  unfolding crc32_positive toString_binary_def fold_map comp_def of_char_binary ..

lemma crc32_binary_hi: "crc32 (toString_binary (sendMessage_buf (literal ''hi''))) = 0x226d9137"
  unfolding buf_hi crc32_binary
  by (simp add: makeCRCTable_nth crc_shift_def funpow8)

lemma toString16_examples:
  "toString16 40 = ''28''" "toString16 0x9c2e4585 = ''9c2e4585''"
  "toString16 0x226d9137 = ''226d9137''" "toString16 65536 = ''10000''"
  by (simp_all add: toString16.simps hex_digit_def)

lemma hex_padded_examples:
  "hex_padded 4 40 = ''0028''" "hex_padded 8 0x9c2e4585 = ''9c2e4585''"
  "hex_padded 8 0x226d9137 = ''226d9137''" "hex_padded 4 65536 = ''10000''"
  unfolding hex_padded_def toString16_examples by (simp_all add: numeral_2_eq_2)

lemma envelope_hi:
  "envelope ''BQBAAAAATWVzc2FnZSBmcm9tIHNlcnZlcgBoaQA='' crc =
     ''!CPC0028BQBAAAAATWVzc2FnZSBmcm9tIHNlcnZlcgBoaQA='' @ hex_padded 8 crc @ [CHR 0x0A]"
proof -
  have l: "length ''BQBAAAAATWVzc2FnZSBmcm9tIHNlcnZlcgBoaQA='' = 40" by simp
  show ?thesis unfolding envelope_def l hex_padded_examples by simp
qed

theorem broadcast_envelopes_witness:
  "length (literal ''hi'') \<le> 49122
   \<and> distinct (map fst (connectionPools
         \<lparr>connectionPools = [(''/A'', [1]), (''/B'', [2, 3])],
            connectionPoolOpen = [(''/A'', 0), (''/B'', 0)], pipeCount = 2\<rparr>))
   \<and> sendMessage_packet (literal ''hi'')
        = ''!CPC0028BQBAAAAATWVzc2FnZSBmcm9tIHNlcnZlcgBoaQA=9c2e4585'' @ [CHR 0x0A]
   \<and> sendMessage_bpacket (literal ''hi'')
        = ''!CPC0028BQBAAAAATWVzc2FnZSBmcm9tIHNlcnZlcgBoaQA=226d9137'' @ [CHR 0x0A]
   \<and> sendMessage (literal ''hi'')
         \<lparr>connectionPools = [(''/A'', [1]), (''/B'', [2, 3])],
            connectionPoolOpen = [(''/A'', 0), (''/B'', 0)], pipeCount = 2\<rparr>
        = [(1, sendMessage_packet (literal ''hi'')), (1, sendMessage_bpacket (literal ''hi'')),
           (2, sendMessage_packet (literal ''hi'')), (2, sendMessage_bpacket (literal ''hi'')),
           (3, sendMessage_packet (literal ''hi'')), (3, sendMessage_bpacket (literal ''hi''))]"
proof -
  let ?st = "\<lparr>connectionPools = [(''/A'', [1]), (''/B'', [2, 3])],
               connectionPoolOpen = [(''/A'', 0), (''/B'', 0)], pipeCount = 2\<rparr>"
  have h1: "length (literal ''hi'') \<le> 49122" by (simp add: literal_def)
  have h2: "distinct (map fst (connectionPools ?st))" by simp
  note t = broadcast_envelopes [OF h1 h2]
  from t have "sendMessage_packet (literal ''hi'') =
           envelope (toString_base64 (sendMessage_buf (literal ''hi'')))
             (crc32 (toString_base64 (sendMessage_buf (literal ''hi''))))" by blast
  then have p: "sendMessage_packet (literal ''hi'')
        = ''!CPC0028BQBAAAAATWVzc2FnZSBmcm9tIHNlcnZlcgBoaQA=9c2e4585'' @ [CHR 0x0A]"
    unfolding base64_hi crc32_base64_hi envelope_hi hex_padded_examples by simp
  from t have "sendMessage_bpacket (literal ''hi'') =
           envelope (toString_base64 (sendMessage_buf (literal ''hi'')))
             (crc32 (toString_binary (sendMessage_buf (literal ''hi''))))" by blast
  then have b: "sendMessage_bpacket (literal ''hi'')
        = ''!CPC0028BQBAAAAATWVzc2FnZSBmcm9tIHNlcnZlcgBoaQA=226d9137'' @ [CHR 0x0A]"
    unfolding base64_hi crc32_binary_hi envelope_hi hex_padded_examples by simp
  from t have "sendMessage (literal ''hi'') ?st =
           concat (map (\<lambda>socket. [(socket, sendMessage_packet (literal ''hi'')),
                                    (socket, sendMessage_bpacket (literal ''hi''))])
             (concat (map snd (connectionPools ?st))))" by blast
  then have d: "sendMessage (literal ''hi'') ?st
        = [(1, sendMessage_packet (literal ''hi'')), (1, sendMessage_bpacket (literal ''hi'')),
           (2, sendMessage_packet (literal ''hi'')), (2, sendMessage_bpacket (literal ''hi'')),
           (3, sendMessage_packet (literal ''hi'')), (3, sendMessage_bpacket (literal ''hi''))]"
    by simp
  show ?thesis
    by (rule conjI [OF h1 conjI [OF h2 conjI [OF p conjI [OF b d]]]])
qed

text \<open>
  For a text of 49123 code units the base64 payload has 65536 characters, \<open>10000\<close> in
  hexadecimal; \<open>slice(-4)\<close> keeps the last four digits, and the length field reads 0.
\<close>

lemma packet_length_field_wraps:
  assumes "length message = 49123"
  shows "length (toString_base64 (sendMessage_buf message)) = 65536"
    and "take 4 (drop 4 (sendMessage_packet message)) = ''0000''"
    and "sendMessage_packet message \<noteq>
           envelope (toString_base64 (sendMessage_buf message))
             (crc32 (toString_base64 (sendMessage_buf message)))"
proof -
  show l: "length (toString_base64 (sendMessage_buf message)) = 65536"
    by (simp add: length_base64 length_sendMessage_buf assms)
  have s: "slice_last 4 (''000'' @ toString16 65536) = ''0000''"
    unfolding toString16_examples by (simp add: slice_last_def)
  show f: "take 4 (drop 4 (sendMessage_packet message)) = ''0000''"
    unfolding sendMessage_packet_def Let_def l s by simp
  have "take 4 (drop 4 (envelope (toString_base64 (sendMessage_buf message))
             (crc32 (toString_base64 (sendMessage_buf message))))) = ''1000''"
    unfolding envelope_def l hex_padded_examples by simp
  with f show "sendMessage_packet message \<noteq>
           envelope (toString_base64 (sendMessage_buf message))
             (crc32 (toString_base64 (sendMessage_buf message)))"
    by auto
qed

text \<open>
  The claim as stated, for every text, fails at the text of 49123 letters \<open>a\<close>: the length
  field of the packet is \<open>0000\<close> while the payload has 65536 characters.
\<close>

theorem broadcast_length_field_overflow:
  "length (replicate 49123 (0x61 :: 16 word)) = 49123
   \<and> length (toString_base64 (sendMessage_buf (replicate 49123 0x61))) = 65536
   \<and> take 4 (drop 4 (sendMessage_packet (replicate 49123 0x61))) = ''0000''
   \<and> sendMessage_packet (replicate 49123 0x61) \<noteq>
        envelope (toString_base64 (sendMessage_buf (replicate 49123 0x61)))
          (crc32 (toString_base64 (sendMessage_buf (replicate 49123 0x61))))"
proof -
  have l: "length (replicate 49123 (0x61 :: 16 word)) = 49123" by (rule length_replicate)
  show ?thesis
    by (rule conjI [OF l conjI [OF packet_length_field_wraps(1) [OF l]
          conjI [OF packet_length_field_wraps(2) [OF l] packet_length_field_wraps(3) [OF l]]]])
qed

text \<open>
  Claim C7 says that the buffer has \<open>27 + byteLength(text)\<close> bytes and holds the text from
  byte 26.  \<open>sendMessage\<close> allocates \<open>27 + message.length\<close> bytes, the length in UTF-16
  code units: for the two-character text U+00E9 U+00E9, of 4 bytes in UTF-8, the buffer has
  29 bytes instead of 31, and \<open>write\<close> stores the first character only.  (For a text of
  ASCII characters the two lengths agree and the layout is the claimed one, see
  \<open>sendMessage_buf_ascii\<close>.)
\<close>

theorem broadcast_buffer_multibyte_text:
  "concat (utf8_chars [0xE9, 0xE9]) = [0xC3, 0xA9, 0xC3, 0xA9]
   \<and> byteLength [0xE9, 0xE9] = 4
   \<and> length (sendMessage_buf [0xE9, 0xE9]) = 29
   \<and> sendMessage_buf [0xE9, 0xE9] =
       [5, 0, 0x40, 0, 0, 0, 77, 101, 115, 115, 97, 103, 101, 32, 102, 114, 111, 109, 32, 115,
        101, 114, 118, 101, 114, 0, 0xC3, 0xA9, 0]"
  by (simp add: buf_ee byteLength_def)

section \<open>Further facts about the registry\<close>

text \<open>
  The keys of a registry reached from the empty one are pairwise different, as the
  properties of an object are.
\<close>

lemma distinct_keys_on_connection:
  "distinct (map fst (connectionPools st)) \<Longrightarrow>
     distinct (map fst (connectionPools (on_connection now url s st)))"
  by (simp add: on_connection_def Let_def AList.distinct_update)

lemma distinct_keys_on_close:
  assumes "distinct (map fst (connectionPools st))" and "on_close url f s st = Inr (st', cl)"
  shows "distinct (map fst (connectionPools st'))"
proof -
  from on_close_Inr [OF assms(2)] obtain pool
    where p: "map_of (connectionPools st) url = Some pool" by blast
  from assms(2) have "Inr (st', cl) = on_close url f s st" by simp
  then show ?thesis
    unfolding on_close_Some [OF p]
    using assms(1) by (auto simp: AList.distinct_update AList.distinct_delete split: if_splits)
qed

lemma distinct_keys_step:
  assumes "distinct (map fst (connectionPools st))" and "step e st = Inr (st', out)"
  shows "distinct (map fst (connectionPools st'))"
proof (cases e)
  case (Connection now url s)
  with assms show ?thesis by (auto simp: distinct_keys_on_connection)
next
  case (Message url s m)
  with assms step_Message_state [of url s m st st' out] show ?thesis by simp
next
  case (Close url f s)
  with assms(2) obtain cl where "on_close url f s st = Inr (st', cl)"
    by (auto split: sum.splits)
  from distinct_keys_on_close [OF assms(1) this] show ?thesis .
qed

lemma distinct_keys_run:
  "distinct (map fst (connectionPools st)) \<Longrightarrow> run es st = Inr (st', out) \<Longrightarrow>
     distinct (map fst (connectionPools st'))"
proof (induction es arbitrary: st out)
  case Nil
  then show ?case by simp
next
  case (Cons e es)
  from run_Cons_Inr [OF Cons.prems(2)] obtain st1 o1 o2
    where s: "step e st = Inr (st1, o1)" and r: "run es st1 = Inr (st', o2)" by blast
  from Cons.IH [OF distinct_keys_step [OF Cons.prems(1) s] r] show ?case .
qed

lemma distinct_keys_reachable:
  "run es createServer = Inr (st, out) \<Longrightarrow> distinct (map fst (connectionPools st))"
  by (rule distinct_keys_run [of createServer]) (simp_all add: createServer_def)

text \<open>
  \<open>getConnectionCount\<close> is the sum of the member counts of the sessions.
\<close>

lemma fold_add_length: "fold (\<lambda>pool sum. sum + length pool) ps a = a + sum_list (map length ps)"
  by (induction ps arbitrary: a) auto

lemma getConnectionCount_sessions:
  assumes "distinct (map fst (connectionPools st))"
  shows "getConnectionCount st = sum_list (map (memberCount st) (allSessionIds st))"
proof -
  have "map (memberCount st) (allSessionIds st)
      = map (\<lambda>r. case r of None \<Rightarrow> 0 | Some pool \<Rightarrow> length pool)
          (map (map_of (connectionPools st)) (map fst (connectionPools st)))"
    by (auto simp: memberCount_def membersOf_def allSessionIds_def split: option.splits)
  also have "\<dots> = map length (map snd (connectionPools st))"
    unfolding map_of_keys [OF assms] by (simp add: comp_def)
  finally show ?thesis by (simp add: getConnectionCount_def fold_add_length)
qed

end
